theory Spec2Isabelle
  imports Main "HOL-Library.AList"
begin

section \<open>Service records and errors\<close>

text \<open>
  \<^verbatim>\<open>registry.go\<close>, lines 15--19: the struct \<^verbatim>\<open>ServiceInfo\<close> with its three string
  fields. A Go string is a sequence of bytes, which is what \<^typ>\<open>string\<close> is here.
\<close>

record ServiceInfo =
  Name :: string
  Address :: string
  Version :: string

text \<open>
  The error values the registry can hand to its caller: an error of the store client
  (with its message), and the two errors of \<^verbatim>\<open>json.Unmarshal\<close>. The store client
  can return an error for a request that the cluster has applied all the same (the reply
  was lost, the deadline passed while it was on its way); the caller cannot tell such
  an error from another, the state of the cluster can: it is \<open>ReplyLost\<close> here.
\<close>

datatype error = StoreError string | ReplyLost string | SyntaxError | UnmarshalTypeError

definition applied :: "error \<Rightarrow> bool" where
  "applied err = (case err of ReplyLost m \<Rightarrow> True | _ \<Rightarrow> False)"

section \<open>The codec: \<^verbatim>\<open>encoding/json\<close> on \<^verbatim>\<open>ServiceInfo\<close>\<close>

text \<open>
  \<^verbatim>\<open>Register\<close> calls \<^verbatim>\<open>json.Marshal\<close> on a \<^verbatim>\<open>*ServiceInfo\<close> and \<^verbatim>\<open>Discover\<close> calls
  \<^verbatim>\<open>json.Unmarshal\<close> into a \<^verbatim>\<open>ServiceInfo\<close>. Both functions belong to Go's standard
  library, not to the repository; they are modelled here for this one struct type,
  following the library of the toolchain named in \<^verbatim>\<open>go.mod\<close> (go 1.24): the string
  escaping of the encoder, and for the decoder the JSON grammar, the unquoting of string
  literals, the matching of object keys with field names and the treatment of values of
  the wrong type.
\<close>

subsection \<open>UTF-8\<close>

definition byte :: "char \<Rightarrow> nat" where
  "byte c = of_char c"

definition chr :: "nat \<Rightarrow> char" where
  "chr n = char_of n"

definition RuneError :: nat where
  "RuneError = 0xFFFD"

definition cont :: "char \<Rightarrow> bool" where
  "cont c = (0x80 \<le> byte c \<and> byte c \<le> 0xBF)"

text \<open>
  \<^verbatim>\<open>utf8.DecodeRuneInString\<close>: the first rune of a string and the number of bytes it
  takes; \<open>(RuneError, 1)\<close> for a byte that starts no well-formed encoding (overlong
  forms, surrogates and values above U+10FFFF are not well formed), \<open>(RuneError, 0)\<close>
  for the empty string.
\<close>

definition second_ok :: "nat \<Rightarrow> nat \<Rightarrow> bool" where
  "second_ok b0 b1 =
     (if b0 = 0xE0 then 0xA0 \<le> b1 \<and> b1 \<le> 0xBF
      else if b0 = 0xED then 0x80 \<le> b1 \<and> b1 \<le> 0x9F
      else if b0 = 0xF0 then 0x90 \<le> b1 \<and> b1 \<le> 0xBF
      else if b0 = 0xF4 then 0x80 \<le> b1 \<and> b1 \<le> 0x8F
      else 0x80 \<le> b1 \<and> b1 \<le> 0xBF)"

fun DecodeRune :: "string \<Rightarrow> nat \<times> nat" where
  "DecodeRune [] = (RuneError, 0)"
| "DecodeRune (c # cs) =
     (let b0 = byte c in
      if b0 < 0x80 then (b0, 1)
      else if b0 < 0xC2 \<or> 0xF4 < b0 then (RuneError, 1)
      else if b0 < 0xE0 then
        (case cs of
           c1 # _ \<Rightarrow>
             if cont c1 then ((b0 - 0xC0) * 64 + (byte c1 - 0x80), 2) else (RuneError, 1)
         | _ \<Rightarrow> (RuneError, 1))
      else if b0 < 0xF0 then
        (case cs of
           c1 # c2 # _ \<Rightarrow>
             if second_ok b0 (byte c1) \<and> cont c2
             then ((b0 - 0xE0) * 4096 + (byte c1 - 0x80) * 64 + (byte c2 - 0x80), 3)
             else (RuneError, 1)
         | _ \<Rightarrow> (RuneError, 1))
      else
        (case cs of
           c1 # c2 # c3 # _ \<Rightarrow>
             if second_ok b0 (byte c1) \<and> cont c2 \<and> cont c3
             then ((b0 - 0xF0) * 262144 + (byte c1 - 0x80) * 4096
                     + (byte c2 - 0x80) * 64 + (byte c3 - 0x80), 4)
             else (RuneError, 1)
         | _ \<Rightarrow> (RuneError, 1)))"

text \<open>
  \<^verbatim>\<open>utf8.EncodeRune\<close>: a surrogate or a value above U+10FFFF is written as U+FFFD.
\<close>

definition EncodeRune :: "nat \<Rightarrow> string" where
  "EncodeRune r =
     (if r < 0x80 then [chr r]
      else if r < 0x800 then [chr (0xC0 + r div 64), chr (0x80 + r mod 64)]
      else if 0x10FFFF < r \<or> (0xD800 \<le> r \<and> r \<le> 0xDFFF) then [chr 0xEF, chr 0xBF, chr 0xBD]
      else if r < 0x10000 then
        [chr (0xE0 + r div 4096), chr (0x80 + r div 64 mod 64), chr (0x80 + r mod 64)]
      else
        [chr (0xF0 + r div 262144), chr (0x80 + r div 4096 mod 64),
         chr (0x80 + r div 64 mod 64), chr (0x80 + r mod 64)])"

text \<open>\<^verbatim>\<open>utf8.ValidString\<close>: every byte belongs to a well-formed encoding.\<close>

fun ValidString :: "string \<Rightarrow> bool" where
  "ValidString [] = True"
| "ValidString (c # cs) =
     (case DecodeRune (c # cs) of
        (r, n) \<Rightarrow> \<not> (r = RuneError \<and> n = 1) \<and> ValidString (drop (n - 1) cs))"

subsection \<open>The encoder\<close>

definition hex :: "nat \<Rightarrow> char" where
  "hex n = ''0123456789abcdef'' ! n"

text \<open>
  The bytes below \<open>0x80\<close> in \<^verbatim>\<open>appendString\<close>, with \<^verbatim>\<open>escapeHTML\<close> set as
  \<^verbatim>\<open>json.Marshal\<close> sets it: the quote and the backslash get a backslash, five control
  characters their short form, the other control characters and \<^verbatim>\<open><\<close>, \<^verbatim>\<open>>\<close>, \<^verbatim>\<open>&\<close>
  the form \<^verbatim>\<open>\u00XX\<close>; every other byte is copied.
\<close>

definition escape_ascii :: "char \<Rightarrow> string" where
  "escape_ascii c =
     (if c = CHR 0x5C \<or> c = CHR 0x22 then [CHR 0x5C, c]
      else if c = CHR 0x08 then [CHR 0x5C, CHR ''b'']
      else if c = CHR 0x0C then [CHR 0x5C, CHR ''f'']
      else if c = CHR 0x0A then [CHR 0x5C, CHR ''n'']
      else if c = CHR 0x0D then [CHR 0x5C, CHR ''r'']
      else if c = CHR 0x09 then [CHR 0x5C, CHR ''t'']
      else if byte c < 0x20 \<or> c = CHR ''<'' \<or> c = CHR ''>'' \<or> c = CHR ''&''
        then [CHR 0x5C, CHR ''u'', CHR ''0'', CHR ''0'', hex (byte c div 16), hex (byte c mod 16)]
      else [c])"

text \<open>
  The loop of \<^verbatim>\<open>appendString\<close> between the two quotes: a byte that is no well-formed
  UTF-8 becomes a backslash followed by \<^verbatim>\<open>ufffd\<close>, U+2028 and U+2029 are escaped, every
  other rune is copied.
\<close>

fun escape :: "string \<Rightarrow> string" where
  "escape [] = []"
| "escape (c # cs) =
     (if byte c < 0x80 then escape_ascii c @ escape cs
      else
        (case DecodeRune (c # cs) of
           (r, n) \<Rightarrow>
             if r = RuneError \<and> n = 1
               then [CHR 0x5C, CHR ''u'', CHR ''f'', CHR ''f'', CHR ''f'', CHR ''d''] @ escape cs
             else if r = 0x2028 \<or> r = 0x2029
               then [CHR 0x5C, CHR ''u'', CHR ''2'', CHR ''0'', CHR ''2'', hex (r mod 16)]
                      @ escape (drop (n - 1) cs)
             else c # take (n - 1) cs @ escape (drop (n - 1) cs)))"

definition appendString :: "string \<Rightarrow> string" where
  "appendString s = [CHR 0x22] @ escape s @ [CHR 0x22]"

text \<open>
  Modelled from the spec: \<^verbatim>\<open>json.Marshal\<close>, which line 63 calls and the sources do not
  contain (it is Go's \<^verbatim>\<open>encoding/json\<close>). The spec has the payload as a JSON-like
  structured payload of name, address and version; the library writes the three fields
  in the order of the struct, under the names of their tags, each value as a string
  literal. It has no error for a struct of strings; the result type keeps the error
  that \<^verbatim>\<open>Register\<close> checks.
\<close>

definition json_Marshal :: "ServiceInfo \<Rightarrow> error + string" where
  "json_Marshal si =
     Inr (''{'' @ appendString ''name'' @ '':'' @ appendString (Name si)
            @ '','' @ appendString ''address'' @ '':'' @ appendString (Address si)
            @ '','' @ appendString ''version'' @ '':'' @ appendString (Version si) @ ''}'')"

subsection \<open>The decoder\<close>

text \<open>
  The decoder first checks that the whole input is one JSON value, then stores that value
  into the struct. The model reads the input into a value of \<open>json\<close> (a string literal
  already unquoted) and then stores it; an input that cannot be read is a
  \<^verbatim>\<open>SyntaxError\<close>.
\<close>

datatype json =
    JNull
  | JBool bool
  | JNumber
  | JString string
  | JArray "json list"
  | JObject "(string \<times> json) list"

definition isSpace :: "char \<Rightarrow> bool" where
  "isSpace c = (c = CHR '' '' \<or> c = CHR 0x09 \<or> c = CHR 0x0D \<or> c = CHR 0x0A)"

definition skip_space :: "string \<Rightarrow> string" where
  "skip_space s = dropWhile isSpace s"

definition isDigit :: "char \<Rightarrow> bool" where
  "isDigit c = (0x30 \<le> byte c \<and> byte c \<le> 0x39)"

text \<open>The value of a hexadecimal digit, in either case; \<open>None\<close> for any other byte.\<close>

definition hexval :: "char \<Rightarrow> nat option" where
  "hexval c =
     (let b = byte c in
      if 0x30 \<le> b \<and> b \<le> 0x39 then Some (b - 0x30)
      else if 0x61 \<le> b \<and> b \<le> 0x66 then Some (b - 0x61 + 10)
      else if 0x41 \<le> b \<and> b \<le> 0x46 then Some (b - 0x41 + 10)
      else None)"

text \<open>\<^verbatim>\<open>getu4\<close> without the leading backslash and u: four hexadecimal digits.\<close>

fun getu4 :: "string \<Rightarrow> nat option" where
  "getu4 (a # b # c # d # _) =
     (case (hexval a, hexval b, hexval c, hexval d) of
        (Some x, Some y, Some z, Some w) \<Rightarrow> Some (x * 4096 + y * 256 + z * 16 + w)
      | _ \<Rightarrow> None)"
| "getu4 _ = None"

text \<open>\<^verbatim>\<open>getu4\<close> itself: a backslash, u and four hexadecimal digits.\<close>

fun getu4_escaped :: "string \<Rightarrow> nat option" where
  "getu4_escaped (a # b # rest) = (if a = CHR 0x5C \<and> b = CHR ''u'' then getu4 rest else None)"
| "getu4_escaped _ = None"

definition IsSurrogate :: "nat \<Rightarrow> bool" where
  "IsSurrogate r = (0xD800 \<le> r \<and> r < 0xE000)"

text \<open>
  \<^verbatim>\<open>utf16.DecodeRune\<close>: the code point of a surrogate pair, U+FFFD when the two values
  are no pair.
\<close>

definition utf16_DecodeRune :: "nat \<Rightarrow> nat \<Rightarrow> nat" where
  "utf16_DecodeRune r1 r2 =
     (if 0xD800 \<le> r1 \<and> r1 < 0xDC00 \<and> 0xDC00 \<le> r2 \<and> r2 < 0xE000
      then (r1 - 0xD800) * 1024 + (r2 - 0xDC00) + 0x10000
      else RuneError)"

text \<open>The character a one-letter escape stands for.\<close>

definition unescape_letter :: "char \<Rightarrow> char option" where
  "unescape_letter e =
     (if e = CHR 0x22 \<or> e = CHR 0x5C \<or> e = CHR ''/'' then Some e
      else if e = CHR ''b'' then Some (CHR 0x08)
      else if e = CHR ''f'' then Some (CHR 0x0C)
      else if e = CHR ''n'' then Some (CHR 0x0A)
      else if e = CHR ''r'' then Some (CHR 0x0D)
      else if e = CHR ''t'' then Some (CHR 0x09)
      else None)"

definition prepend :: "string \<Rightarrow> (string \<times> string) option \<Rightarrow> (string \<times> string) option" where
  "prepend p r = (case r of None \<Rightarrow> None | Some (s, rest) \<Rightarrow> Some (p @ s, rest))"

text \<open>
  A string literal after its opening quote: the scanner's check of the literal together
  with \<^verbatim>\<open>unquote\<close>. The result is the unquoted text and the input after the closing
  quote. A control character, an unknown escape and a missing closing quote are syntax
  errors. Bytes that are no well-formed UTF-8, and escaped surrogates that form no
  pair, become U+FFFD.
\<close>

fun unquote :: "string \<Rightarrow> (string \<times> string) option" where
  "unquote [] = None"
| "unquote (c # cs) =
     (if c = CHR 0x22 then Some ([], cs)
      else if byte c < 0x20 then None
      else if c = CHR 0x5C then
        (case cs of
           [] \<Rightarrow> None
         | e # es \<Rightarrow>
             if e = CHR ''u'' then
               (case getu4 es of
                  None \<Rightarrow> None
                | Some rr \<Rightarrow>
                    if IsSurrogate rr then
                      (case getu4_escaped (drop 4 es) of
                         None \<Rightarrow> prepend (EncodeRune RuneError) (unquote (drop 4 es))
                       | Some rr1 \<Rightarrow>
                           if utf16_DecodeRune rr rr1 \<noteq> RuneError
                           then prepend (EncodeRune (utf16_DecodeRune rr rr1)) (unquote (drop 10 es))
                           else prepend (EncodeRune RuneError) (unquote (drop 4 es)))
                    else prepend (EncodeRune rr) (unquote (drop 4 es)))
             else
               (case unescape_letter e of
                  None \<Rightarrow> None
                | Some ch \<Rightarrow> prepend [ch] (unquote es)))
      else if byte c < 0x80 then prepend [c] (unquote cs)
      else
        (case DecodeRune (c # cs) of
           (r, n) \<Rightarrow> prepend (EncodeRune r) (unquote (drop (n - 1) cs))))"

text \<open>
  A number, from its first character on: an optional minus, \<open>0\<close> or a digit from 1 to 9
  followed by digits, an optional fraction, an optional exponent. The result is the
  input after the number.
\<close>

definition scan_exponent :: "string \<Rightarrow> string option" where
  "scan_exponent s =
     (case s of
        e # t \<Rightarrow>
          if e = CHR ''e'' \<or> e = CHR ''E'' then
            (case (case t of
                     g # u \<Rightarrow> if g = CHR ''+'' \<or> g = CHR ''-'' then u else t
                   | [] \<Rightarrow> t) of
               d # u \<Rightarrow> if isDigit d then Some (dropWhile isDigit u) else None
             | [] \<Rightarrow> None)
          else Some s
      | [] \<Rightarrow> Some s)"

definition scan_fraction :: "string \<Rightarrow> string option" where
  "scan_fraction s =
     (case s of
        p # t \<Rightarrow>
          if p = CHR ''.'' then
            (case t of
               d # u \<Rightarrow> if isDigit d then scan_exponent (dropWhile isDigit u) else None
             | [] \<Rightarrow> None)
          else scan_exponent s
      | [] \<Rightarrow> scan_exponent s)"

definition scan_number :: "string \<Rightarrow> string option" where
  "scan_number s =
     (case (case s of
              m # t \<Rightarrow> if m = CHR ''-'' then t else s
            | [] \<Rightarrow> s) of
        d # t \<Rightarrow>
          if d = CHR ''0'' then scan_fraction t
          else if isDigit d then scan_fraction (dropWhile isDigit t)
          else None
      | [] \<Rightarrow> None)"

text \<open>The words \<^verbatim>\<open>true\<close>, \<^verbatim>\<open>false\<close> and \<^verbatim>\<open>null\<close>.\<close>

definition scan_word :: "string \<Rightarrow> json \<Rightarrow> string \<Rightarrow> (json \<times> string) option" where
  "scan_word w v s = (if take (length w) s = w then Some (v, drop (length w) s) else None)"

text \<open>
  The JSON grammar. \<open>parse_value\<close> reads one value, \<open>parse_elems\<close> the elements of an
  array after its bracket, \<open>parse_members\<close> the members of an object after its brace.
  The first argument bounds the number of nested calls (every call takes one off, and
  \<open>parse\<close> starts with more than the input can need); the second is the number of
  arrays and objects that may still be opened, since the scanner refuses the input when
  more than \<^verbatim>\<open>maxNestingDepth\<close> = 10000 of them are open.
\<close>

fun parse_value :: "nat \<Rightarrow> nat \<Rightarrow> string \<Rightarrow> (json \<times> string) option"
  and parse_elems :: "nat \<Rightarrow> nat \<Rightarrow> string \<Rightarrow> (json list \<times> string) option"
  and parse_members :: "nat \<Rightarrow> nat \<Rightarrow> string \<Rightarrow> ((string \<times> json) list \<times> string) option"
where
  "parse_value 0 d s = None"
| "parse_value (Suc f) d s =
     (case skip_space s of
        [] \<Rightarrow> None
      | c # cs \<Rightarrow>
          if c = CHR 0x22 then
            (case unquote cs of None \<Rightarrow> None | Some (t, r) \<Rightarrow> Some (JString t, r))
          else if c = CHR ''{'' then
            (if d = 0 then None
             else
               (case skip_space cs of
                  [] \<Rightarrow> None
                | e # r \<Rightarrow>
                    if e = CHR ''}'' then Some (JObject [], r)
                    else
                      (case parse_members f (d - 1) cs of
                         None \<Rightarrow> None
                       | Some (ms, r') \<Rightarrow> Some (JObject ms, r'))))
          else if c = CHR ''['' then
            (if d = 0 then None
             else
               (case skip_space cs of
                  [] \<Rightarrow> None
                | e # r \<Rightarrow>
                    if e = CHR '']'' then Some (JArray [], r)
                    else
                      (case parse_elems f (d - 1) cs of
                         None \<Rightarrow> None
                       | Some (vs, r') \<Rightarrow> Some (JArray vs, r'))))
          else if c = CHR ''t'' then scan_word ''true'' (JBool True) (c # cs)
          else if c = CHR ''f'' then scan_word ''false'' (JBool False) (c # cs)
          else if c = CHR ''n'' then scan_word ''null'' JNull (c # cs)
          else if c = CHR ''-'' \<or> isDigit c then
            (case scan_number (c # cs) of None \<Rightarrow> None | Some r \<Rightarrow> Some (JNumber, r))
          else None)"
| "parse_elems 0 d s = None"
| "parse_elems (Suc f) d s =
     (case parse_value f d s of
        None \<Rightarrow> None
      | Some (v, r) \<Rightarrow>
          (case skip_space r of
             [] \<Rightarrow> None
           | e # r' \<Rightarrow>
               if e = CHR '','' then
                 (case parse_elems f d r' of
                    None \<Rightarrow> None
                  | Some (vs, r'') \<Rightarrow> Some (v # vs, r''))
               else if e = CHR '']'' then Some ([v], r')
               else None))"
| "parse_members 0 d s = None"
| "parse_members (Suc f) d s =
     (case skip_space s of
        [] \<Rightarrow> None
      | q # t \<Rightarrow>
          if q = CHR 0x22 then
            (case unquote t of
               None \<Rightarrow> None
             | Some (k, r) \<Rightarrow>
                 (case skip_space r of
                    [] \<Rightarrow> None
                  | p # r1 \<Rightarrow>
                      if p = CHR '':'' then
                        (case parse_value f d r1 of
                           None \<Rightarrow> None
                         | Some (v, r2) \<Rightarrow>
                             (case skip_space r2 of
                                [] \<Rightarrow> None
                              | e # r3 \<Rightarrow>
                                  if e = CHR '','' then
                                    (case parse_members f d r3 of
                                       None \<Rightarrow> None
                                     | Some (ms, r4) \<Rightarrow> Some ((k, v) # ms, r4))
                                  else if e = CHR ''}'' then Some ([(k, v)], r3)
                                  else None))
                      else None))
          else None)"

definition maxNestingDepth :: nat where
  "maxNestingDepth = 10000"

text \<open>
  \<^verbatim>\<open>checkValid\<close>: the input is one value, with nothing but white space after it.
\<close>

definition parse :: "string \<Rightarrow> json option" where
  "parse data =
     (case parse_value (2 * length data + 2) maxNestingDepth data of
        None \<Rightarrow> None
      | Some (v, r) \<Rightarrow> if skip_space r = [] then Some v else None)"

text \<open>
  An object key names a field when it is the field's name, or equal to it under
  \<^verbatim>\<open>foldName\<close>. \<^verbatim>\<open>foldName\<close> puts ASCII letters in upper case and replaces every other
  rune by the smallest rune of its orbit under Unicode's simple case folding. Two runes
  beyond ASCII have an ASCII letter in their orbit, U+017F (with S) and U+212A (with K);
  an orbit without an ASCII letter cannot take part in a match with the three field
  names, and the model leaves the runes of such orbits as they are.
\<close>

definition foldRune :: "nat \<Rightarrow> nat" where
  "foldRune r = (if r = 0x17F then 0x53 else if r = 0x212A then 0x4B else r)"

fun foldName :: "string \<Rightarrow> string" where
  "foldName [] = []"
| "foldName (c # cs) =
     (if byte c < 0x80 then
        (if 0x61 \<le> byte c \<and> byte c \<le> 0x7A then chr (byte c - 0x20) else c) # foldName cs
      else
        (case DecodeRune (c # cs) of
           (r, n) \<Rightarrow> EncodeRune (foldRune r) @ foldName (drop (n - 1) cs)))"

datatype field = FName | FAddress | FVersion

definition field_of :: "string \<Rightarrow> field option" where
  "field_of key =
     (if key = ''name'' then Some FName
      else if key = ''address'' then Some FAddress
      else if key = ''version'' then Some FVersion
      else if foldName key = ''NAME'' then Some FName
      else if foldName key = ''ADDRESS'' then Some FAddress
      else if foldName key = ''VERSION'' then Some FVersion
      else None)"

definition set_field :: "field \<Rightarrow> string \<Rightarrow> ServiceInfo \<Rightarrow> ServiceInfo" where
  "set_field fd t si =
     (case fd of
        FName \<Rightarrow> si\<lparr>Name := t\<rparr>
      | FAddress \<Rightarrow> si\<lparr>Address := t\<rparr>
      | FVersion \<Rightarrow> si\<lparr>Version := t\<rparr>)"

text \<open>
  One member of the object, stored into the struct. The value of a key that names no
  field is skipped. For a field, a string is stored, \<^verbatim>\<open>null\<close> leaves the field as it
  is, and any other value is an \<^verbatim>\<open>UnmarshalTypeError\<close>, which the decoder keeps (the
  flag) while it goes on with the members that follow.
\<close>

definition store_member :: "ServiceInfo \<times> bool \<Rightarrow> string \<times> json \<Rightarrow> ServiceInfo \<times> bool" where
  "store_member acc m =
     (case field_of (fst m) of
        None \<Rightarrow> acc
      | Some fd \<Rightarrow>
          (case snd m of
             JString t \<Rightarrow> (set_field fd t (fst acc), snd acc)
           | JNull \<Rightarrow> acc
           | _ \<Rightarrow> (fst acc, True)))"

definition zero_ServiceInfo :: ServiceInfo where
  "zero_ServiceInfo = \<lparr>Name = [], Address = [], Version = []\<rparr>"

text \<open>
  Modelled from the spec: \<^verbatim>\<open>json.Unmarshal\<close>, which line 131 calls and the sources do
  not contain (it is Go's \<^verbatim>\<open>encoding/json\<close>). The spec has the payload self-describing,
  with the order of the fields irrelevant, and malformed payloads skipped by readers.
  This is \<^verbatim>\<open>json.Unmarshal(data, &service)\<close> with \<^verbatim>\<open>service\<close> the zero struct, as
  line 130 declares it anew in every iteration. \<^verbatim>\<open>null\<close> at the top stores nothing and
  is no error; a top-level value that is neither \<^verbatim>\<open>null\<close> nor an object is an
  \<^verbatim>\<open>UnmarshalTypeError\<close>.
\<close>

definition json_Unmarshal :: "string \<Rightarrow> error + ServiceInfo" where
  "json_Unmarshal data =
     (case parse data of
        None \<Rightarrow> Inl SyntaxError
      | Some JNull \<Rightarrow> Inr zero_ServiceInfo
      | Some (JObject ms) \<Rightarrow>
          (case foldl store_member (zero_ServiceInfo, False) ms of
             (si, bad) \<Rightarrow> if bad then Inl UnmarshalTypeError else Inr si)
      | Some _ \<Rightarrow> Inl UnmarshalTypeError)"

section \<open>The store\<close>

text \<open>
  The registry talks to an etcd cluster through \<^verbatim>\<open>clientv3\<close>. The cluster is not part
  of the repository; this is the contract the registry relies on: a key-value table in
  which every key carries the lease it was written under, the granted leases, and the
  watch streams, each with the events the cluster has produced for it and that its
  reader has not yet received. A put or a delete under the prefix of a stream adds an
  event to it. A range read returns the entries in the order of the table; no property
  below depends on that order. The lease \<open>0\<close> stands for no lease.
\<close>

datatype event_type = PUT | DELETE

record event =
  ev_type :: event_type
  ev_key :: string
  ev_value :: string

record watch_stream =
  ws_prefix :: string
  pending :: "event list"

record etcd =
  kvs :: "(string \<times> string \<times> nat) list"
  leases :: "(nat \<times> int) list"
  next_lease :: nat
  streams :: "watch_stream list"

definition has_prefix :: "string \<Rightarrow> string \<Rightarrow> bool" where
  "has_prefix p k = (take (length p) k = p)"

definition notify :: "event \<Rightarrow> watch_stream list \<Rightarrow> watch_stream list" where
  "notify ev ss =
     map (\<lambda>s. if has_prefix (ws_prefix s) (ev_key ev) then s\<lparr>pending := pending s @ [ev]\<rparr> else s) ss"

definition store_put :: "string \<Rightarrow> string \<Rightarrow> nat \<Rightarrow> etcd \<Rightarrow> etcd" where
  "store_put k v l st =
     st\<lparr>kvs := AList.update k (v, l) (kvs st),
        streams := notify \<lparr>ev_type = PUT, ev_key = k, ev_value = v\<rparr> (streams st)\<rparr>"

definition store_delete :: "string \<Rightarrow> etcd \<Rightarrow> etcd" where
  "store_delete k st =
     (if k \<in> fst ` set (kvs st)
      then st\<lparr>kvs := AList.delete k (kvs st),
              streams := notify \<lparr>ev_type = DELETE, ev_key = k, ev_value = []\<rparr> (streams st)\<rparr>
      else st)"

definition store_range :: "string \<Rightarrow> etcd \<Rightarrow> (string \<times> string) list" where
  "store_range p st = map (\<lambda>(k, v, l). (k, v)) (filter (\<lambda>(k, v, l). has_prefix p k) (kvs st))"

section \<open>The registry and its goroutines\<close>

text \<open>
  A callback of \<^verbatim>\<open>Watch\<close> is either an observer of the caller (known by a number) or
  the closure that \<^verbatim>\<open>Build\<close> makes for a \<^verbatim>\<open>ClientConn\<close> (known by a number too). The
  state keeps every call of a callback, with the place it was made from: line 168
  (the initial snapshot) or line 156 (on an event).
\<close>

datatype callback = Observer nat | UpdateState nat

datatype origin = Initial | OnEvent

text \<open>Where a goroutine stands: not yet at its first statement, in its loop, or returned.\<close>

datatype keeper_pc = KA_Start | KA_Loop | KA_Done

record keeper =
  k_lease :: nat
  k_key :: string
  k_value :: string
  k_pc :: keeper_pc

text \<open>
  A watcher in its loop waits at the \<^verbatim>\<open>select\<close> of line 147 (\<open>W_Loop\<close>, with its
  stream), or is inside the loop over the events of a response: before the
  \<^verbatim>\<open>Discover\<close> of line 154 for the first of the events that remain (\<open>W_Handling\<close>),
  or between that \<^verbatim>\<open>Discover\<close> and the callback of line 156, holding the snapshot
  (\<open>W_Deliver\<close>, with the events that remain after this one).
\<close>

datatype watcher_pc =
    W_Start
  | W_Loop nat
  | W_Handling nat "event list"
  | W_Deliver nat "event list" "ServiceInfo list"
  | W_Done

record watcher =
  w_name :: string
  w_callback :: callback
  w_pc :: watcher_pc

text \<open>
  The state of one \<^verbatim>\<open>EtcdRegistry\<close> and of what it touches. \<open>net\<close> holds the outcomes
  of the coming calls to the cluster, in order: \<open>None\<close> for a call that succeeds, an
  error for one that fails; once the list is empty every call succeeds. \<open>cancelled\<close>
  says that \<^verbatim>\<open>r.ctx\<close> is done. \<open>keepers\<close> and \<open>watchers\<close> are the goroutines started at
  lines 83 and 144. \<open>in_Watch\<close> holds the calls of \<^verbatim>\<open>Watch\<close> that stand between
  their \<^verbatim>\<open>Discover\<close> (line 164) and their callback (line 168), each with its callback
  and the snapshot it holds. \<open>cc_states\<close> holds the address lists given to
  \<^verbatim>\<open>cc.UpdateState\<close>, and \<open>stdout\<close> what \<^verbatim>\<open>fmt.Printf\<close> wrote.
\<close>

record world =
  store :: etcd
  net :: "error option list"
  ttl :: int
  cancelled :: bool
  client_closed :: bool
  keepers :: "keeper list"
  watchers :: "watcher list"
  in_Watch :: "(callback \<times> ServiceInfo list) list"
  calls :: "(origin \<times> callback \<times> ServiceInfo list) list"
  cc_states :: "(nat \<times> string list) list"
  stdout :: "string list"

text \<open>
  One call to the cluster under \<^verbatim>\<open>r.ctx\<close>: it fails at once when the context is done,
  and otherwise as \<open>net\<close> says.
\<close>

definition rpc :: "world \<Rightarrow> error option \<times> world" where
  "rpc w =
     (if cancelled w then (Some (StoreError ''context canceled''), w)
      else
        (case net w of
           [] \<Rightarrow> (None, w)
         | x # xs \<Rightarrow> (x, w\<lparr>net := xs\<rparr>)))"

text \<open>
  The calls that change the cluster. A call that succeeds has changed it; a call that
  fails has changed it too when its error is one for a request that the cluster had
  applied.
\<close>

definition store_grant :: "int \<Rightarrow> etcd \<Rightarrow> etcd" where
  "store_grant t st = st\<lparr>leases := leases st @ [(next_lease st, t)], next_lease := Suc (next_lease st)\<rparr>"

definition lease_Grant :: "world \<Rightarrow> int \<Rightarrow> (error + nat) \<times> world" where
  "lease_Grant w t =
     (case rpc w of
        (Some err, w1) \<Rightarrow>
          (Inl err, if applied err then w1\<lparr>store := store_grant t (store w1)\<rparr> else w1)
      | (None, w1) \<Rightarrow> (Inr (next_lease (store w1)), w1\<lparr>store := store_grant t (store w1)\<rparr>))"

definition kv_Put :: "world \<Rightarrow> string \<Rightarrow> string \<Rightarrow> nat \<Rightarrow> (error + unit) \<times> world" where
  "kv_Put w k v l =
     (case rpc w of
        (Some err, w1) \<Rightarrow>
          (Inl err, if applied err then w1\<lparr>store := store_put k v l (store w1)\<rparr> else w1)
      | (None, w1) \<Rightarrow> (Inr (), w1\<lparr>store := store_put k v l (store w1)\<rparr>))"

definition kv_Delete :: "world \<Rightarrow> string \<Rightarrow> (error + unit) \<times> world" where
  "kv_Delete w k =
     (case rpc w of
        (Some err, w1) \<Rightarrow>
          (Inl err, if applied err then w1\<lparr>store := store_delete k (store w1)\<rparr> else w1)
      | (None, w1) \<Rightarrow> (Inr (), w1\<lparr>store := store_delete k (store w1)\<rparr>))"

definition kv_Get_WithPrefix :: "world \<Rightarrow> string \<Rightarrow> (error + (string \<times> string) list) \<times> world" where
  "kv_Get_WithPrefix w p =
     (case rpc w of
        (Some err, w1) \<Rightarrow> (Inl err, w1)
      | (None, w1) \<Rightarrow> (Inr (store_range p (store w1)), w1))"

text \<open>
  \<^verbatim>\<open>client.Watch\<close> returns its channel at once, without an error value: a new stream,
  known by its position.
\<close>

definition client_Watch_WithPrefix :: "world \<Rightarrow> string \<Rightarrow> nat \<times> world" where
  "client_Watch_WithPrefix w p =
     (let st = store w
      in (length (streams st),
          w\<lparr>store := st\<lparr>streams := streams st @ [\<lparr>ws_prefix = p, pending = []\<rparr>]\<rparr>\<rparr>))"

definition Printf :: "string \<Rightarrow> world \<Rightarrow> world" where
  "Printf line w = w\<lparr>stdout := stdout w @ [line]\<rparr>"

definition error_text :: "error \<Rightarrow> string" where
  "error_text err =
     (case err of
        StoreError m \<Rightarrow> m
      | ReplyLost m \<Rightarrow> m
      | SyntaxError \<Rightarrow> ''json: syntax error''
      | UnmarshalTypeError \<Rightarrow> ''json: cannot unmarshal'')"

definition service_key :: "string \<Rightarrow> string \<Rightarrow> string" where
  "service_key serviceName address = ''/services/'' @ serviceName @ ''/'' @ address"

definition service_prefix :: "string \<Rightarrow> string" where
  "service_prefix serviceName = ''/services/'' @ serviceName @ ''/''"

subsection \<open>\<^verbatim>\<open>Register\<close>, \<^verbatim>\<open>keepAlive\<close>, \<^verbatim>\<open>Unregister\<close>\<close>

text \<open>Line 83: the \<^verbatim>\<open>go\<close> statement adds a keeper that has not run yet.\<close>

definition go_keepAlive :: "nat \<Rightarrow> string \<Rightarrow> string \<Rightarrow> world \<Rightarrow> world" where
  "go_keepAlive leaseID k v w =
     w\<lparr>keepers := keepers w @ [\<lparr>k_lease = leaseID, k_key = k, k_value = v, k_pc = KA_Start\<rparr>]\<rparr>"

text \<open>Lines 56--86.\<close>

definition Register :: "world \<Rightarrow> string \<Rightarrow> string \<Rightarrow> string \<Rightarrow> (error + unit) \<times> world" where
  "Register w serviceName address version =
     (let serviceInfo = \<lparr>Name = serviceName, Address = address, Version = version\<rparr>
      in case json_Marshal serviceInfo of
           Inl err \<Rightarrow> (Inl err, w)
         | Inr val \<Rightarrow>
             (case lease_Grant w (ttl w) of
                (Inl err, w1) \<Rightarrow> (Inl err, w1)
              | (Inr leaseID, w1) \<Rightarrow>
                  (let k = service_key serviceName address
                   in case kv_Put w1 k val leaseID of
                        (Inl err, w2) \<Rightarrow> (Inl err, w2)
                      | (Inr u, w2) \<Rightarrow> (Inr (), go_keepAlive leaseID k val w2))))"

text \<open>Lines 113--118.\<close>

definition Unregister :: "world \<Rightarrow> string \<Rightarrow> string \<Rightarrow> (error + unit) \<times> world" where
  "Unregister w serviceName address = kv_Delete w (service_key serviceName address)"

text \<open>
  The goroutine \<^verbatim>\<open>keepAlive\<close>, lines 89--111, one step at a time. Its first step opens
  the renewal stream (line 91); when that fails it prints and returns. A later step is
  one round of the \<^verbatim>\<open>select\<close>: the context is done, or the channel delivers an
  acknowledgment, which is \<open>None\<close> for \<^verbatim>\<open>nil\<close>. The case of the context can only be
  taken when the context is done.
\<close>

datatype ka_msg = KA_CtxDone | KA_Ack "int option"

text \<open>
  \<^verbatim>\<open>lease.KeepAlive\<close> returns a channel and an error. A done context is no error of
  this call (the client closes the channel instead), so its outcome is the next of
  \<open>net\<close> whether the context is done or not.
\<close>

definition lease_KeepAlive :: "world \<Rightarrow> error option \<times> world" where
  "lease_KeepAlive w =
     (case net w of
        [] \<Rightarrow> (None, w)
      | x # xs \<Rightarrow> (x, w\<lparr>net := xs\<rparr>))"

definition set_keeper_pc :: "nat \<Rightarrow> keeper_pc \<Rightarrow> world \<Rightarrow> world" where
  "set_keeper_pc i pc w = w\<lparr>keepers := (keepers w)[i := (keepers w ! i)\<lparr>k_pc := pc\<rparr>]\<rparr>"

definition keepAlive_start :: "nat \<Rightarrow> world \<Rightarrow> world" where
  "keepAlive_start i w =
     (if i < length (keepers w) \<and> k_pc (keepers w ! i) = KA_Start then
        (case lease_KeepAlive w of
           (Some err, w1) \<Rightarrow>
             set_keeper_pc i KA_Done
               (Printf (''keep alive error: '' @ error_text err @ [CHR 0x0A]) w1)
         | (None, w1) \<Rightarrow> set_keeper_pc i KA_Loop w1)
      else w)"

definition keepAlive_select :: "nat \<Rightarrow> ka_msg \<Rightarrow> world \<Rightarrow> world" where
  "keepAlive_select i msg w =
     (if i < length (keepers w) \<and> k_pc (keepers w ! i) = KA_Loop then
        (case msg of
           KA_CtxDone \<Rightarrow> if cancelled w then set_keeper_pc i KA_Done w else w
         | KA_Ack None \<Rightarrow>
             set_keeper_pc i KA_Done
               (Printf (''lease expired, try to re-register service '' @ k_key (keepers w ! i)
                          @ [CHR 0x0A]) w)
         | KA_Ack (Some resp) \<Rightarrow> w)
      else w)"

text \<open>The loop of lines 98--110 over the outcomes of its \<^verbatim>\<open>select\<close>, in order.\<close>

fun keepAlive_loop :: "nat \<Rightarrow> ka_msg list \<Rightarrow> world \<Rightarrow> world" where
  "keepAlive_loop i [] w = w"
| "keepAlive_loop i (msg # msgs) w = keepAlive_loop i msgs (keepAlive_select i msg w)"

subsection \<open>\<^verbatim>\<open>Discover\<close>\<close>

text \<open>
  The loop of lines 128--135 over \<^verbatim>\<open>resp.Kvs\<close>, with \<^verbatim>\<open>services\<close> as it grows: an
  entry whose value does not decode is passed over (\<^verbatim>\<open>continue\<close>), the record of any
  other entry is appended.
\<close>

fun decode_kvs :: "(string \<times> string) list \<Rightarrow> ServiceInfo list \<Rightarrow> ServiceInfo list" where
  "decode_kvs [] services = services"
| "decode_kvs (kv # rest) services =
     (case json_Unmarshal (snd kv) of
        Inl err \<Rightarrow> decode_kvs rest services
      | Inr service \<Rightarrow> decode_kvs rest (services @ [service]))"

text \<open>Lines 121--138.\<close>

definition Discover :: "world \<Rightarrow> string \<Rightarrow> (error + ServiceInfo list) \<times> world" where
  "Discover w serviceName =
     (case kv_Get_WithPrefix w (service_prefix serviceName) of
        (Inl err, w1) \<Rightarrow> (Inl err, w1)
      | (Inr resp_Kvs, w1) \<Rightarrow> (Inr (decode_kvs resp_Kvs []), w1))"

subsection \<open>\<^verbatim>\<open>Watch\<close> and its goroutine\<close>

text \<open>
  A call of a callback. The closure of \<^verbatim>\<open>Build\<close> (lines 187--193) keeps the address
  of every record and hands the list to \<^verbatim>\<open>cc.UpdateState\<close>.
\<close>

definition invoke :: "origin \<Rightarrow> callback \<Rightarrow> ServiceInfo list \<Rightarrow> world \<Rightarrow> world" where
  "invoke org cb services w =
     (let w1 = w\<lparr>calls := calls w @ [(org, cb, services)]\<rparr>
      in case cb of
           Observer n \<Rightarrow> w1
         | UpdateState cc \<Rightarrow> w1\<lparr>cc_states := cc_states w1 @ [(cc, map Address services)]\<rparr>)"

definition type_String :: "event_type \<Rightarrow> string" where
  "type_String t = (case t of PUT \<Rightarrow> ''PUT'' | DELETE \<Rightarrow> ''DELETE'')"

text \<open>
  Lines 151--158: what the goroutine does with one \<^verbatim>\<open>WatchResponse\<close>. For every event
  of the response it prints a line, runs \<^verbatim>\<open>Discover\<close>, and calls the callback when
  \<^verbatim>\<open>Discover\<close> gave no error.
\<close>

fun handle_events :: "string \<Rightarrow> callback \<Rightarrow> event list \<Rightarrow> world \<Rightarrow> world" where
  "handle_events serviceName cb [] w = w"
| "handle_events serviceName cb (ev # evs) w =
     (case Discover
             (Printf (''Service changed: '' @ type_String (ev_type ev) @ '' '' @ ev_key ev
                        @ [CHR 0x0A]) w)
             serviceName of
        (Inr services, w1) \<Rightarrow> handle_events serviceName cb evs (invoke OnEvent cb services w1)
      | (Inl err, w1) \<Rightarrow> handle_events serviceName cb evs w1)"

text \<open>Line 144: the \<^verbatim>\<open>go\<close> statement adds a watcher that has not run yet.\<close>

definition go_watch :: "string \<Rightarrow> callback \<Rightarrow> world \<Rightarrow> world" where
  "go_watch serviceName cb w =
     w\<lparr>watchers := watchers w @ [\<lparr>w_name = serviceName, w_callback = cb, w_pc = W_Start\<rparr>]\<rparr>"

text \<open>Lines 163--170: the part of \<^verbatim>\<open>Watch\<close> after the \<^verbatim>\<open>go\<close> statement.\<close>

definition Watch_initial :: "world \<Rightarrow> string \<Rightarrow> callback \<Rightarrow> (error + unit) \<times> world" where
  "Watch_initial w serviceName cb =
     (case Discover w serviceName of
        (Inl err, w1) \<Rightarrow> (Inl err, w1)
      | (Inr services, w1) \<Rightarrow> (Inr (), invoke Initial cb services w1))"

text \<open>
  Lines 141--171, when no other goroutine runs between the \<^verbatim>\<open>go\<close> statement and the
  return.
\<close>

definition Watch :: "world \<Rightarrow> string \<Rightarrow> callback \<Rightarrow> (error + unit) \<times> world" where
  "Watch w serviceName cb = Watch_initial (go_watch serviceName cb w) serviceName cb"

text \<open>
  The goroutine of lines 144--161, one step at a time. Its first step opens the watch
  stream (line 145). A later step is one round of the \<^verbatim>\<open>select\<close>: the context is done
  (which can only be taken when it is), or the channel delivers a response with the
  first \<open>n\<close> events that wait in the stream.
\<close>

datatype w_msg = W_CtxDone | W_Resp nat

definition set_watcher_pc :: "nat \<Rightarrow> watcher_pc \<Rightarrow> world \<Rightarrow> world" where
  "set_watcher_pc i pc w = w\<lparr>watchers := (watchers w)[i := (watchers w ! i)\<lparr>w_pc := pc\<rparr>]\<rparr>"

definition watch_start :: "nat \<Rightarrow> world \<Rightarrow> world" where
  "watch_start i w =
     (if i < length (watchers w) \<and> w_pc (watchers w ! i) = W_Start then
        (case client_Watch_WithPrefix w (service_prefix (w_name (watchers w ! i))) of
           (sid, w1) \<Rightarrow> set_watcher_pc i (W_Loop sid) w1)
      else w)"

definition receive :: "nat \<Rightarrow> nat \<Rightarrow> world \<Rightarrow> event list \<times> world" where
  "receive sid n w =
     (let st = store w; s = streams st ! sid
      in (take n (pending s),
          w\<lparr>store := st\<lparr>streams := (streams st)[sid := s\<lparr>pending := drop n (pending s)\<rparr>]\<rparr>\<rparr>))"

definition watch_select :: "nat \<Rightarrow> w_msg \<Rightarrow> world \<Rightarrow> world" where
  "watch_select i msg w =
     (if i < length (watchers w) then
        (case w_pc (watchers w ! i) of
           W_Loop sid \<Rightarrow>
             (case msg of
                W_CtxDone \<Rightarrow> if cancelled w then set_watcher_pc i W_Done w else w
              | W_Resp n \<Rightarrow>
                  if sid < length (streams (store w)) then
                    (case receive sid n w of
                       (evs, w1) \<Rightarrow>
                         handle_events (w_name (watchers w ! i)) (w_callback (watchers w ! i))
                           evs w1)
                  else w)
         | _ \<Rightarrow> w)
      else w)"

text \<open>
  \<open>watch_select\<close> with a response is the goroutine running lines 150--158 for the whole
  response with nothing else happening in between. The source has no synchronisation
  there, so the same lines are also given in the three steps in which other goroutines
  and callers can come in between: taking the response off the channel (line 150),
  the \<^verbatim>\<open>Printf\<close> and the \<^verbatim>\<open>Discover\<close> for the next event (lines 152--154), and
  the callback with the snapshot that \<^verbatim>\<open>Discover\<close> returned (lines 155--156).
\<close>

definition next_pc :: "nat \<Rightarrow> event list \<Rightarrow> watcher_pc" where
  "next_pc sid evs = (case evs of [] \<Rightarrow> W_Loop sid | ev # rest \<Rightarrow> W_Handling sid evs)"

definition watch_receive :: "nat \<Rightarrow> nat \<Rightarrow> world \<Rightarrow> world" where
  "watch_receive i n w =
     (if i < length (watchers w) then
        (case w_pc (watchers w ! i) of
           W_Loop sid \<Rightarrow>
             if sid < length (streams (store w)) then
               (case receive sid n w of
                  (evs, w1) \<Rightarrow> set_watcher_pc i (next_pc sid evs) w1)
             else w
         | _ \<Rightarrow> w)
      else w)"

definition watch_discover :: "nat \<Rightarrow> world \<Rightarrow> world" where
  "watch_discover i w =
     (if i < length (watchers w) then
        (case w_pc (watchers w ! i) of
           W_Handling sid evs \<Rightarrow>
             (case evs of
                [] \<Rightarrow> w
              | ev # rest \<Rightarrow>
                  (case Discover
                          (Printf (''Service changed: '' @ type_String (ev_type ev) @ '' ''
                                     @ ev_key ev @ [CHR 0x0A]) w)
                          (w_name (watchers w ! i)) of
                     (Inr services, w1) \<Rightarrow> set_watcher_pc i (W_Deliver sid rest services) w1
                   | (Inl err, w1) \<Rightarrow> set_watcher_pc i (next_pc sid rest) w1))
         | _ \<Rightarrow> w)
      else w)"

definition watch_callback :: "nat \<Rightarrow> world \<Rightarrow> world" where
  "watch_callback i w =
     (if i < length (watchers w) then
        (case w_pc (watchers w ! i) of
           W_Deliver sid rest services \<Rightarrow>
             set_watcher_pc i (next_pc sid rest)
               (invoke OnEvent (w_callback (watchers w ! i)) services w)
         | _ \<Rightarrow> w)
      else w)"

text \<open>
  In the same way lines 163--170 of \<^verbatim>\<open>Watch\<close> in two steps: the \<^verbatim>\<open>Discover\<close> of line
  164, after which the call holds its snapshot, and the callback of line 168 for one
  of the calls that hold a snapshot.
\<close>

definition Watch_discover :: "world \<Rightarrow> string \<Rightarrow> callback \<Rightarrow> world" where
  "Watch_discover w serviceName cb =
     (case Discover w serviceName of
        (Inl err, w1) \<Rightarrow> w1
      | (Inr services, w1) \<Rightarrow> w1\<lparr>in_Watch := in_Watch w1 @ [(cb, services)]\<rparr>)"

definition Watch_callback :: "nat \<Rightarrow> world \<Rightarrow> world" where
  "Watch_callback k w =
     (if k < length (in_Watch w) then
        invoke Initial (fst (in_Watch w ! k)) (snd (in_Watch w ! k))
          (w\<lparr>in_Watch := take k (in_Watch w) @ drop (Suc k) (in_Watch w)\<rparr>)
      else w)"

subsection \<open>\<^verbatim>\<open>Close\<close> and the resolver\<close>

text \<open>
  Lines 173--177: \<^verbatim>\<open>r.cancel()\<close>, then \<^verbatim>\<open>r.client.Close()\<close>, whose outcome is the
  next of \<open>net\<close>.
\<close>

definition Close :: "world \<Rightarrow> (error + unit) \<times> world" where
  "Close w =
     (let w1 = w\<lparr>cancelled := True, client_closed := True\<rparr>
      in case net w1 of
           [] \<Rightarrow> (Inr (), w1)
         | None # xs \<Rightarrow> (Inr (), w1\<lparr>net := xs\<rparr>)
         | Some err # xs \<Rightarrow> (Inl err, w1\<lparr>net := xs\<rparr>))"

text \<open>
  Lines 203--207: \<^verbatim>\<open>etcdResolver\<close>. Its field \<^verbatim>\<open>registry\<close> is the one registry of the
  state; \<^verbatim>\<open>cc\<close> is the number of the \<^verbatim>\<open>ClientConn\<close>.
\<close>

record etcdResolver =
  rsv_cc :: nat

text \<open>
  Lines 179--196. \<open>endpoint\<close> is what \<^verbatim>\<open>target.Endpoint()\<close> returns. \<^verbatim>\<open>Build\<close> returns
  the resolver together with the error of \<^verbatim>\<open>Watch\<close>.
\<close>

definition Build :: "world \<Rightarrow> string \<Rightarrow> nat \<Rightarrow> (etcdResolver \<times> (error + unit)) \<times> world" where
  "Build w endpoint cc =
     (let serviceName = endpoint; rsv = \<lparr>rsv_cc = cc\<rparr>
      in case Watch w serviceName (UpdateState cc) of
           (err, w1) \<Rightarrow> ((rsv, err), w1))"

text \<open>Lines 198--201.\<close>

definition Scheme :: "world \<Rightarrow> string" where
  "Scheme w = ''etcd''"

text \<open>Line 210: the body of \<^verbatim>\<open>ResolveNow\<close> is empty.\<close>

definition ResolveNow :: "etcdResolver \<Rightarrow> world \<Rightarrow> world" where
  "ResolveNow rsv w = w"

text \<open>Line 213: the body of \<^verbatim>\<open>etcdResolver.Close\<close> is empty.\<close>

definition etcdResolver_Close :: "etcdResolver \<Rightarrow> world \<Rightarrow> world" where
  "etcdResolver_Close rsv w = w"

subsection \<open>Runs\<close>

text \<open>
  What can happen next: a call of one of the registry's methods, a step of a goroutine,
  or a write of another client of the cluster. A run is a list of such actions; an
  action that cannot be taken in a state leaves it as it is. \<^verbatim>\<open>Watch\<close> comes in its
  parts: the \<^verbatim>\<open>go\<close> statement, then either the rest in one step (\<open>Call_Watch_initial\<close>)
  or its \<^verbatim>\<open>Discover\<close> and its callback as two steps; a watcher handles a response
  either in one step (\<open>Watcher_select\<close>) or in the steps \<open>Watcher_receive\<close>,
  \<open>Watcher_discover\<close> and \<open>Watcher_callback\<close>. So a run can put any step of another
  goroutine or caller between a \<^verbatim>\<open>Discover\<close> and the callback that follows it.
\<close>

datatype action =
    Call_Register string string string
  | Call_Unregister string string
  | Call_Discover string
  | Call_Watch_go string callback
  | Call_Watch_initial string callback
  | Call_Close
  | Call_Resolver_Close etcdResolver
  | Call_ResolveNow etcdResolver
  | Keeper_start nat
  | Keeper_select nat ka_msg
  | Watcher_start nat
  | Watcher_select nat w_msg
  | Other_put string string
  | Other_delete string
  | Call_Watch_discover string callback
  | Call_Watch_callback nat
  | Watcher_receive nat nat
  | Watcher_discover nat
  | Watcher_callback nat

definition exec :: "action \<Rightarrow> world \<Rightarrow> world" where
  "exec a w =
     (case a of
        Call_Register n ad v \<Rightarrow> snd (Register w n ad v)
      | Call_Unregister n ad \<Rightarrow> snd (Unregister w n ad)
      | Call_Discover n \<Rightarrow> snd (Discover w n)
      | Call_Watch_go n cb \<Rightarrow> go_watch n cb w
      | Call_Watch_initial n cb \<Rightarrow> snd (Watch_initial w n cb)
      | Call_Close \<Rightarrow> snd (Close w)
      | Call_Resolver_Close rsv \<Rightarrow> etcdResolver_Close rsv w
      | Call_ResolveNow rsv \<Rightarrow> ResolveNow rsv w
      | Keeper_start i \<Rightarrow> keepAlive_start i w
      | Keeper_select i msg \<Rightarrow> keepAlive_select i msg w
      | Watcher_start i \<Rightarrow> watch_start i w
      | Watcher_select i msg \<Rightarrow> watch_select i msg w
      | Other_put k v \<Rightarrow> w\<lparr>store := store_put k v 0 (store w)\<rparr>
      | Other_delete k \<Rightarrow> w\<lparr>store := store_delete k (store w)\<rparr>
      | Call_Watch_discover n cb \<Rightarrow> Watch_discover w n cb
      | Call_Watch_callback k \<Rightarrow> Watch_callback k w
      | Watcher_receive i n \<Rightarrow> watch_receive i n w
      | Watcher_discover i \<Rightarrow> watch_discover i w
      | Watcher_callback i \<Rightarrow> watch_callback i w)"

fun run :: "action list \<Rightarrow> world \<Rightarrow> world" where
  "run [] w = w"
| "run (a # as) w = run as (exec a w)"

text \<open>A registry that has done nothing yet, on a cluster with the given entries.\<close>

definition fresh_world :: "(string \<times> string \<times> nat) list \<Rightarrow> error option list \<Rightarrow> int \<Rightarrow> world" where
  "fresh_world entries outcomes t =
     \<lparr>store = \<lparr>kvs = entries, leases = [], next_lease = 1, streams = []\<rparr>,
      net = outcomes, ttl = t, cancelled = False, client_closed = False,
      keepers = [], watchers = [], in_Watch = [], calls = [], cc_states = [], stdout = []\<rparr>"

text \<open>
  The outcomes of the next \<open>k\<close> calls to the cluster, when the context is live and
  \<open>net\<close> is the given list: those that the list holds, and success for the calls
  beyond them.
\<close>

fun outcomes :: "nat \<Rightarrow> error option list \<Rightarrow> error option list" where
  "outcomes 0 xs = []"
| "outcomes (Suc k) [] = None # outcomes k []"
| "outcomes (Suc k) (x # xs) = x # outcomes k xs"

text \<open>
  The steps of the watcher \<open>i\<close> in a run, and the \<^verbatim>\<open>go\<close> statements of the calls of
  \<^verbatim>\<open>Watch\<close> with the callback \<open>cb\<close>.
\<close>

definition task_step :: "nat \<Rightarrow> action \<Rightarrow> bool" where
  "task_step i a =
     (case a of
        Watcher_start j \<Rightarrow> j = i
      | Watcher_select j msg \<Rightarrow> j = i
      | Watcher_receive j n \<Rightarrow> j = i
      | Watcher_discover j \<Rightarrow> j = i
      | Watcher_callback j \<Rightarrow> j = i
      | _ \<Rightarrow> False)"

definition subscribes :: "callback \<Rightarrow> action \<Rightarrow> bool" where
  "subscribes cb a = (case a of Call_Watch_go n cb' \<Rightarrow> cb' = cb | _ \<Rightarrow> False)"

section \<open>Properties of \<^verbatim>\<open>Discover\<close>\<close>

text \<open>Three payloads and what the decoder makes of them.\<close>

lemma Unmarshal_oops: "json_Unmarshal ''oops'' = Inl SyntaxError"
  by code_simp

lemma Unmarshal_number: \<open>json_Unmarshal ''{"name":17}'' = Inl UnmarshalTypeError\<close>
  by code_simp

lemma Unmarshal_billing:
  \<open>json_Unmarshal ''{"name":"billing","address":"10.9.9.9:1","version":"v2"}'' =
     Inr \<lparr>Name = ''billing'', Address = ''10.9.9.9:1'', Version = ''v2''\<rparr>\<close>
  by code_simp

text \<open>
  The loop with its growing slice is a filter followed by a map: the entries that decode,
  each replaced by its record, in the order of the response.
\<close>

lemma decode_kvs_acc:
  "decode_kvs entries acc =
     acc @ map (\<lambda>kv. projr (json_Unmarshal (snd kv)))
             (filter (\<lambda>kv. \<not> isl (json_Unmarshal (snd kv))) entries)"
  by (induction entries arbitrary: acc) (auto split: sum.splits)

text \<open>
  Claim C7. Whatever the entries under the prefix \<^verbatim>\<open>/services/{name}/\<close> are, when the
  range read itself succeeds \<^verbatim>\<open>Discover\<close> returns no error: the entries whose payload
  does not decode are dropped, and the result is exactly the records of the entries
  whose payload decodes.
\<close>

theorem Discover_drops_malformed:
  assumes "fst (kv_Get_WithPrefix w (service_prefix name)) = Inr entries"
  shows "fst (Discover w name) =
           Inr (map (\<lambda>kv. projr (json_Unmarshal (snd kv)))
                  (filter (\<lambda>kv. \<not> isl (json_Unmarshal (snd kv))) entries))"
proof (cases "kv_Get_WithPrefix w (service_prefix name)")
  case (Pair res w1)
  with assms have "res = Inr entries" by simp
  with Pair show ?thesis by (simp add: Discover_def decode_kvs_acc)
qed

text \<open>
  At a store with one well-formed entry, two malformed ones (no JSON at all; a number
  where a string belongs) and an entry of another service, the result is the one record.
\<close>

theorem Discover_drops_malformed_witness:
  \<open>fst (kv_Get_WithPrefix
          (fresh_world
             [(''/services/auth/10.0.0.1:9000'',
               ''{"name":"billing","address":"10.9.9.9:1","version":"v2"}'', 0),
              (''/services/auth/10.0.0.2:9000'', ''oops'', 0),
              (''/services/auth/10.0.0.3:9000'', ''{"name":17}'', 0),
              (''/services/other/10.0.0.4:9000'', ''{}'', 0)] [] 10)
          (service_prefix ''auth'')) =
     Inr [(''/services/auth/10.0.0.1:9000'',
           ''{"name":"billing","address":"10.9.9.9:1","version":"v2"}''),
          (''/services/auth/10.0.0.2:9000'', ''oops''),
          (''/services/auth/10.0.0.3:9000'', ''{"name":17}'')] \<and>
   fst (Discover
          (fresh_world
             [(''/services/auth/10.0.0.1:9000'',
               ''{"name":"billing","address":"10.9.9.9:1","version":"v2"}'', 0),
              (''/services/auth/10.0.0.2:9000'', ''oops'', 0),
              (''/services/auth/10.0.0.3:9000'', ''{"name":17}'', 0),
              (''/services/other/10.0.0.4:9000'', ''{}'', 0)] [] 10)
          ''auth'') =
     Inr [\<lparr>Name = ''billing'', Address = ''10.9.9.9:1'', Version = ''v2''\<rparr>]\<close>
proof -
  have range_response:
    \<open>fst (kv_Get_WithPrefix
            (fresh_world
               [(''/services/auth/10.0.0.1:9000'',
                 ''{"name":"billing","address":"10.9.9.9:1","version":"v2"}'', 0),
                (''/services/auth/10.0.0.2:9000'', ''oops'', 0),
                (''/services/auth/10.0.0.3:9000'', ''{"name":17}'', 0),
                (''/services/other/10.0.0.4:9000'', ''{}'', 0)] [] 10)
            (service_prefix ''auth'')) =
       Inr [(''/services/auth/10.0.0.1:9000'',
             ''{"name":"billing","address":"10.9.9.9:1","version":"v2"}''),
            (''/services/auth/10.0.0.2:9000'', ''oops''),
            (''/services/auth/10.0.0.3:9000'', ''{"name":17}'')]\<close>
    by (simp add: kv_Get_WithPrefix_def rpc_def fresh_world_def store_range_def
          has_prefix_def service_prefix_def)
  show ?thesis
    using range_response Discover_drops_malformed [OF range_response]
    by (simp add: Unmarshal_oops Unmarshal_number Unmarshal_billing)
qed


section \<open>Calls to the cluster\<close>

text \<open>A call to the cluster changes nothing in the state but the list of outcomes.\<close>

lemma rpc_cases [case_names fail ok]:
  obtains err ns where "rpc w = (Some err, w\<lparr>net := ns\<rparr>)"
  | ns where "\<not> cancelled w" and "rpc w = (None, w\<lparr>net := ns\<rparr>)"
proof (cases "fst (rpc w)")
  case None
  then have "\<not> cancelled w" and "rpc w = (None, w\<lparr>net := net (snd (rpc w))\<rparr>)"
    by (auto simp: rpc_def split: if_splits list.splits)
  then show ?thesis using that(2) by blast
next
  case (Some err)
  then have "rpc w = (Some err, w\<lparr>net := net (snd (rpc w))\<rparr>)"
    by (auto simp: rpc_def split: if_splits list.splits)
  then show ?thesis using that(1) by blast
qed

lemma rpc_cancelled: "cancelled w \<Longrightarrow> rpc w = (Some (StoreError ''context canceled''), w)"
  by (simp add: rpc_def)

lemma rpc_quiet: "\<not> cancelled w \<Longrightarrow> net w = [] \<Longrightarrow> rpc w = (None, w)"
  by (simp add: rpc_def)

section \<open>Properties of \<^verbatim>\<open>Register\<close>\<close>





text \<open>
  The lease that a failed \<^verbatim>\<open>Put\<close> leaves behind, in general; and a \<^verbatim>\<open>Put\<close> whose reply
  was lost, after which \<^verbatim>\<open>Register\<close> has returned an error and the key is in the table.
\<close>

lemma Register_failed_put_keeps_lease:
  assumes "\<not> cancelled w" "net w = None # Some err # rest"
  shows "fst (Register w serviceName address version) = Inl err \<and>
         leases (store (snd (Register w serviceName address version))) =
           leases (store w) @ [(next_lease (store w), ttl w)]"
  using assms
  by (simp add: Register_def json_Marshal_def lease_Grant_def kv_Put_def Let_def rpc_def
        store_grant_def store_put_def)

lemma Register_lost_reply_leaves_key:
  "fst (Register (fresh_world [] [None, Some (ReplyLost ''deadline exceeded'')] 10)
          ''auth'' ''h1:1'' ''v1'') = Inl (ReplyLost ''deadline exceeded'') \<and>
   map fst (kvs (store (snd (Register
                               (fresh_world [] [None, Some (ReplyLost ''deadline exceeded'')] 10)
                               ''auth'' ''h1:1'' ''v1'')))) = [''/services/auth/h1:1''] \<and>
   keepers (snd (Register (fresh_world [] [None, Some (ReplyLost ''deadline exceeded'')] 10)
                   ''auth'' ''h1:1'' ''v1'')) = []"
  by (simp add: Register_def json_Marshal_def lease_Grant_def kv_Put_def Let_def rpc_def
        fresh_world_def applied_def store_grant_def store_put_def service_key_def)

section \<open>Properties of \<^verbatim>\<open>keepAlive\<close>\<close>

lemma keepAlive_select_frame:
  "store (keepAlive_select i msg w) = store w \<and> net (keepAlive_select i msg w) = net w \<and>
   cancelled (keepAlive_select i msg w) = cancelled w \<and>
   length (keepers (keepAlive_select i msg w)) = length (keepers w) \<and>
   watchers (keepAlive_select i msg w) = watchers w"
  by (simp add: keepAlive_select_def set_keeper_pc_def Printf_def
        split: ka_msg.splits option.splits)

lemma keepAlive_select_pc:
  assumes "i < length (keepers w)" and "k_pc (keepers w ! i) = KA_Loop"
  shows "k_pc (keepers (keepAlive_select i msg w) ! i) =
           (if msg = KA_Ack None \<or> (msg = KA_CtxDone \<and> cancelled w) then KA_Done else KA_Loop)"
  using assms
  by (simp add: keepAlive_select_def set_keeper_pc_def Printf_def
        split: ka_msg.splits option.splits)

text \<open>A goroutine that has returned takes no further step.\<close>

lemma keepAlive_select_done:
  assumes "k_pc (keepers w ! i) = KA_Done"
  shows "keepAlive_select i msg w = w"
  using assms by (simp add: keepAlive_select_def)

lemma keepAlive_loop_done:
  assumes "k_pc (keepers w ! i) = KA_Done"
  shows "keepAlive_loop i msgs w = w"
  using assms by (induction msgs) (simp_all add: keepAlive_select_done)

lemma keepAlive_loop_frame:
  "store (keepAlive_loop i msgs w) = store w \<and> net (keepAlive_loop i msgs w) = net w \<and>
   cancelled (keepAlive_loop i msgs w) = cancelled w \<and>
   length (keepers (keepAlive_loop i msgs w)) = length (keepers w) \<and>
   watchers (keepAlive_loop i msgs w) = watchers w"
proof (induction msgs arbitrary: w)
  case Nil
  then show ?case by simp
next
  case (Cons msg msgs)
  from Cons.IH [of "keepAlive_select i msg w"] keepAlive_select_frame [of i msg w]
  show ?case by simp
qed

lemma keepAlive_loop_pc:
  assumes "i < length (keepers w)" and "k_pc (keepers w ! i) = KA_Loop"
  shows "k_pc (keepers (keepAlive_loop i msgs w) ! i) =
           (if KA_Ack None \<in> set msgs \<or> (KA_CtxDone \<in> set msgs \<and> cancelled w)
            then KA_Done else KA_Loop)"
  using assms
proof (induction msgs arbitrary: w)
  case Nil
  then show ?case by simp
next
  case (Cons msg msgs)
  let ?w = "keepAlive_select i msg w"
  have len: "i < length (keepers ?w)" and c: "cancelled ?w = cancelled w"
    using Cons.prems keepAlive_select_frame [of i msg w] by simp_all
  show ?case
  proof (cases "msg = KA_Ack None \<or> (msg = KA_CtxDone \<and> cancelled w)")
    case True
    then have exited: "k_pc (keepers ?w ! i) = KA_Done"
      using keepAlive_select_pc [OF Cons.prems, of msg] by simp
    then have "keepAlive_loop i msgs ?w = ?w" by (rule keepAlive_loop_done)
    with True exited show ?thesis by auto
  next
    case False
    then have "k_pc (keepers ?w ! i) = KA_Loop"
      using keepAlive_select_pc [OF Cons.prems, of msg] by simp
    from Cons.IH [OF len this] c False show ?thesis by auto
  qed
qed

text \<open>
  Claim C8. A keepalive goroutine whose renewal stream has started (it is in its loop)
  has returned after a sequence of \<^verbatim>\<open>select\<close> outcomes exactly when one of them was a
  \<^verbatim>\<open>nil\<close> acknowledgment, or was the done context with the context cancelled. Whatever
  the outcomes, the loop leaves the store as it is, makes no call to the cluster and
  starts no goroutine: there is no re-registration.
\<close>

theorem keepAlive_exits_without_reregistration:
  assumes "i < length (keepers w)" and "k_pc (keepers w ! i) = KA_Loop"
  shows "(k_pc (keepers (keepAlive_loop i msgs w) ! i) = KA_Done \<longleftrightarrow>
            KA_Ack None \<in> set msgs \<or> (KA_CtxDone \<in> set msgs \<and> cancelled w)) \<and>
         store (keepAlive_loop i msgs w) = store w \<and>
         net (keepAlive_loop i msgs w) = net w \<and>
         length (keepers (keepAlive_loop i msgs w)) = length (keepers w) \<and>
         watchers (keepAlive_loop i msgs w) = watchers w"
  using keepAlive_loop_pc [OF assms, of msgs] keepAlive_loop_frame [of i msgs w] by simp

text \<open>
  After \<^verbatim>\<open>Register\<close> and the start of its goroutine, two acknowledgments and then
  \<^verbatim>\<open>nil\<close>: the goroutine has returned, and the store still holds the one key.
\<close>

theorem keepAlive_exits_without_reregistration_witness:
  "0 < length (keepers (run [Call_Register ''auth'' ''h1:1'' ''v1'', Keeper_start 0]
                          (fresh_world [] [] 10))) \<and>
   k_pc (keepers (run [Call_Register ''auth'' ''h1:1'' ''v1'', Keeper_start 0]
                    (fresh_world [] [] 10)) ! 0) = KA_Loop \<and>
   k_pc (keepers (keepAlive_loop 0 [KA_Ack (Some 10), KA_Ack (Some 10), KA_Ack None]
                    (run [Call_Register ''auth'' ''h1:1'' ''v1'', Keeper_start 0]
                       (fresh_world [] [] 10))) ! 0) = KA_Done \<and>
   map fst (kvs (store (keepAlive_loop 0 [KA_Ack (Some 10), KA_Ack (Some 10), KA_Ack None]
                          (run [Call_Register ''auth'' ''h1:1'' ''v1'', Keeper_start 0]
                             (fresh_world [] [] 10))))) = [''/services/auth/h1:1'']"
proof -
  let ?w = "run [Call_Register ''auth'' ''h1:1'' ''v1'', Keeper_start 0] (fresh_world [] [] 10)"
  have len: "0 < length (keepers ?w)" by code_simp
  have pc: "k_pc (keepers ?w ! 0) = KA_Loop" by code_simp
  have keys: "map fst (kvs (store ?w)) = [''/services/auth/h1:1'']" by code_simp
  from keepAlive_exits_without_reregistration
         [OF len pc, of "[KA_Ack (Some 10), KA_Ack (Some 10), KA_Ack None]"] len pc keys
  show ?thesis by simp
qed

section \<open>Properties of \<^verbatim>\<open>Watch\<close>\<close>

subsection \<open>\<^verbatim>\<open>Discover\<close> as a step\<close>

lemma Discover_cases [case_names fail ok]:
  obtains err ns where "Discover w n = (Inl err, w\<lparr>net := ns\<rparr>)"
  | ns where "\<not> cancelled w"
      and "Discover w n =
             (Inr (decode_kvs (store_range (service_prefix n) (store w)) []), w\<lparr>net := ns\<rparr>)"
proof (cases rule: rpc_cases [of w])
  case (fail err ns)
  then have "Discover w n = (Inl err, w\<lparr>net := ns\<rparr>)"
    by (simp add: Discover_def kv_Get_WithPrefix_def)
  then show ?thesis using that(1) by blast
next
  case (ok ns)
  then have "Discover w n =
      (Inr (decode_kvs (store_range (service_prefix n) (store w)) []), w\<lparr>net := ns\<rparr>)"
    by (simp add: Discover_def kv_Get_WithPrefix_def)
  with ok(1) show ?thesis using that(2) by blast
qed

lemma Discover_cancelled:
  "cancelled w \<Longrightarrow> Discover w n = (Inl (StoreError ''context canceled''), w)"
  by (simp add: Discover_def kv_Get_WithPrefix_def rpc_cancelled)

lemma Discover_quiet:
  "\<not> cancelled w \<Longrightarrow> net w = [] \<Longrightarrow>
   Discover w n = (Inr (decode_kvs (store_range (service_prefix n) (store w)) []), w)"
  by (simp add: Discover_def kv_Get_WithPrefix_def rpc_quiet)

lemma Discover_go_watch:
  "Discover (go_watch m cb w) n = (fst (Discover w n), go_watch m cb (snd (Discover w n)))"
  by (simp add: Discover_def kv_Get_WithPrefix_def rpc_def go_watch_def
        split: list.splits option.splits)

lemma invoke_fields [simp]:
  "calls (invoke org cb s w) = calls w @ [(org, cb, s)]"
  "cancelled (invoke org cb s w) = cancelled w"
  "net (invoke org cb s w) = net w"
  "store (invoke org cb s w) = store w"
  "watchers (invoke org cb s w) = watchers w"
  "keepers (invoke org cb s w) = keepers w"
  by (simp_all add: invoke_def Let_def split: callback.splits)

lemma Printf_fields [simp]:
  "calls (Printf l w) = calls w"
  "cc_states (Printf l w) = cc_states w"
  "cancelled (Printf l w) = cancelled w"
  "net (Printf l w) = net w"
  "store (Printf l w) = store w"
  "watchers (Printf l w) = watchers w"
  "keepers (Printf l w) = keepers w"
  by (simp_all add: Printf_def)

subsection \<open>One response of the watch channel\<close>


text \<open>Once the context is cancelled, a response leads to no call of the callback.\<close>

lemma handle_events_cancelled:
  assumes "cancelled w"
  shows "calls (handle_events n cb evs w) = calls w \<and>
         cc_states (handle_events n cb evs w) = cc_states w \<and>
         cancelled (handle_events n cb evs w)"
  using assms
proof (induction evs arbitrary: w)
  case Nil
  then show ?case by simp
next
  case (Cons ev evs)
  let ?p = "Printf (''Service changed: '' @ type_String (ev_type ev) @ '' '' @ ev_key ev
                      @ [CHR 0x0A]) w"
  have "Discover ?p n = (Inl (StoreError ''context canceled''), ?p)"
    using Cons.prems by (simp add: Discover_cancelled)
  moreover have "calls (handle_events n cb evs ?p) = calls ?p \<and>
         cc_states (handle_events n cb evs ?p) = cc_states ?p \<and>
         cancelled (handle_events n cb evs ?p)"
    using Cons.prems by (intro Cons.IH) simp
  ultimately show ?case by simp
qed

text \<open>Calls of callbacks are only ever added at the end of the record.\<close>

lemma handle_events_extends:
  "\<exists>d. calls (handle_events n cb evs w) = calls w @ d"
proof (induction evs arbitrary: w)
  case Nil
  then show ?case by simp
next
  case (Cons ev evs)
  let ?p = "Printf (''Service changed: '' @ type_String (ev_type ev) @ '' '' @ ev_key ev
                      @ [CHR 0x0A]) w"
  show ?case
  proof (cases rule: Discover_cases [of ?p n])
    case (fail err ns)
    obtain d where
      "calls (handle_events n cb evs (?p\<lparr>net := ns\<rparr>)) = calls (?p\<lparr>net := ns\<rparr>) @ d"
      using Cons.IH by blast
    with fail show ?thesis by simp
  next
    case (ok ns)
    let ?s = "decode_kvs (store_range (service_prefix n) (store ?p)) []"
    obtain d where
      "calls (handle_events n cb evs (invoke OnEvent cb ?s (?p\<lparr>net := ns\<rparr>))) =
         calls (invoke OnEvent cb ?s (?p\<lparr>net := ns\<rparr>)) @ d"
      using Cons.IH by blast
    with ok show ?thesis by simp
  qed
qed

text \<open>
  Claim C1, as the code has it. The goroutine runs \<^verbatim>\<open>Discover\<close> and the callback inside
  the loop over the events of a response (lines 151--158), so a response with several
  events delivers several snapshots. Here the watcher receives one response with the
  two events of two writes, and the observer is called twice for it (after the initial
  call).
\<close>

theorem batch_two_events_counterexample:
  \<open>calls (run [Call_Watch_go ''auth'' (Observer 0), Call_Watch_initial ''auth'' (Observer 0),
               Watcher_start 0,
               Other_put ''/services/auth/h1:1'' ''{"address":"h1:1"}'',
               Other_put ''/services/auth/h2:1'' ''{"address":"h2:1"}'',
               Watcher_select 0 (W_Resp 2)]
          (fresh_world [] [] 10)) =
     [(Initial, Observer 0, []),
      (OnEvent, Observer 0, [\<lparr>Name = [], Address = ''h1:1'', Version = []\<rparr>,
                             \<lparr>Name = [], Address = ''h2:1'', Version = []\<rparr>]),
      (OnEvent, Observer 0, [\<lparr>Name = [], Address = ''h1:1'', Version = []\<rparr>,
                             \<lparr>Name = [], Address = ''h2:1'', Version = []\<rparr>])]\<close>
  by code_simp

text \<open>
  With a live context, \<^verbatim>\<open>Discover\<close> takes the next outcome of \<open>net\<close>: it returns the
  decoded range when the call succeeds and the error when it fails.
\<close>

lemma Discover_live:
  assumes "\<not> cancelled w"
  shows "Discover w n =
     (case net w of
        [] \<Rightarrow> (Inr (decode_kvs (store_range (service_prefix n) (store w)) []), w)
      | None # xs \<Rightarrow>
          (Inr (decode_kvs (store_range (service_prefix n) (store w)) []), w\<lparr>net := xs\<rparr>)
      | Some err # xs \<Rightarrow> (Inl err, w\<lparr>net := xs\<rparr>))"
  using assms
  by (simp add: Discover_def kv_Get_WithPrefix_def rpc_def split: list.splits option.splits)

lemma Discover_result:
  assumes "fst (Discover w n) = Inr s"
  shows "s = decode_kvs (store_range (service_prefix n) (store w)) []"
  using assms by (cases rule: Discover_cases [of w n]) simp_all

text \<open>
  The loop over the events of a response, with a live context and any outcomes of the
  calls to the cluster: it takes one outcome for every event, prints one line for every
  event, and calls the callback once for every outcome that is a success.
\<close>

lemma handle_events_live:
  assumes "\<not> cancelled w"
  shows "net (handle_events n cb evs w) = drop (length evs) (net w) \<and>
         store (handle_events n cb evs w) = store w \<and>
         \<not> cancelled (handle_events n cb evs w) \<and>
         length (stdout (handle_events n cb evs w)) = length (stdout w) + length evs \<and>
         calls (handle_events n cb evs w) =
           calls w @ map (\<lambda>x. (OnEvent, cb, decode_kvs (store_range (service_prefix n) (store w)) []))
                       (filter (\<lambda>x. x = None) (outcomes (length evs) (net w)))"
  using assms
proof (induction evs arbitrary: w)
  case Nil
  then show ?case by simp
next
  case (Cons ev evs)
  let ?p = "Printf (''Service changed: '' @ type_String (ev_type ev) @ '' '' @ ev_key ev
                      @ [CHR 0x0A]) w"
  let ?s = "decode_kvs (store_range (service_prefix n) (store w)) []"
  have live: "\<not> cancelled ?p" using Cons.prems by simp
  have out: "length (stdout ?p) = Suc (length (stdout w))" by (simp add: Printf_def)
  show ?case
  proof (cases "net w")
    case Nil
    let ?w2 = "invoke OnEvent cb ?s ?p"
    have d: "Discover ?p n = (Inr ?s, ?p)"
      using Discover_live [OF live, of n] Nil by simp
    have "\<not> cancelled ?w2" using Cons.prems by simp
    from Cons.IH [OF this] d Nil out show ?thesis
      by (simp add: invoke_def Let_def split: callback.splits)
  next
    case (Cons x xs)
    show ?thesis
    proof (cases x)
      case None
      let ?w2 = "invoke OnEvent cb ?s (?p\<lparr>net := xs\<rparr>)"
      have d: "Discover ?p n = (Inr ?s, ?p\<lparr>net := xs\<rparr>)"
        using Discover_live [OF live, of n] Cons None by simp
      have "\<not> cancelled ?w2" using Cons.prems by simp
      from Cons.IH [OF this] d Cons None out show ?thesis
        by (simp add: invoke_def Let_def Printf_def split: callback.splits)
    next
      case (Some err)
      let ?w2 = "?p\<lparr>net := xs\<rparr>"
      have d: "Discover ?p n = (Inl err, ?w2)"
        using Discover_live [OF live, of n] Cons Some by simp
      have "\<not> cancelled ?w2" using Cons.prems by simp
      from Cons.IH [OF this] d Cons Some out show ?thesis
        by (simp add: Printf_def)
    qed
  qed
qed

text \<open>
  Claim C1, amended. For a response with events \<open>evs\<close>, with a live context, the
  goroutine runs \<^verbatim>\<open>Discover\<close> once for every event of the response, not once for the
  response: it makes \<open>length evs\<close> calls to the cluster (it takes that many outcomes
  from \<open>net\<close>) and prints that many lines. It hands the result of every \<^verbatim>\<open>Discover\<close>
  that gave no error to the callback, and makes no call of the callback for one that
  gave an error: one call for every outcome that is a success, each with the full
  snapshot (what \<^verbatim>\<open>Discover\<close> returns on this store).
\<close>

theorem handle_events_once_per_event:
  assumes "\<not> cancelled w"
  shows "\<exists>snap.
           (\<forall>w1 s. store w1 = store w \<and> fst (Discover w1 n) = Inr s \<longrightarrow> s = snap) \<and>
           net (handle_events n cb evs w) = drop (length evs) (net w) \<and>
           length (stdout (handle_events n cb evs w)) = length (stdout w) + length evs \<and>
           calls (handle_events n cb evs w) =
             calls w @ map (\<lambda>x. (OnEvent, cb, snap))
                         (filter (\<lambda>x. x = None) (outcomes (length evs) (net w)))"
proof (intro exI [of _ "decode_kvs (store_range (service_prefix n) (store w)) []"] conjI allI impI)
  fix w1 s
  assume "store w1 = store w \<and> fst (Discover w1 n) = Inr s"
  then show "s = decode_kvs (store_range (service_prefix n) (store w)) []"
    using Discover_result [of w1 n s] by simp
qed (use handle_events_live [OF assms, of n cb evs] in simp_all)

text \<open>
  Four events, the second \<^verbatim>\<open>Discover\<close> failing: four calls to the cluster, three calls
  of the observer.
\<close>

theorem handle_events_once_per_event_witness:
  \<open>\<not> cancelled (fresh_world [(''/services/auth/h1:1'', ''{"address":"h1:1"}'', 0)]
                  [None, Some (StoreError ''unavailable''), None] 10) \<and>
   net (handle_events ''auth'' (Observer 0)
            [\<lparr>ev_type = PUT, ev_key = ''/services/auth/h1:1'', ev_value = ''{"address":"h1:1"}''\<rparr>,
             \<lparr>ev_type = DELETE, ev_key = ''/services/auth/h0:1'', ev_value = []\<rparr>,
             \<lparr>ev_type = DELETE, ev_key = ''/services/auth/h2:1'', ev_value = []\<rparr>,
             \<lparr>ev_type = DELETE, ev_key = ''/services/auth/h3:1'', ev_value = []\<rparr>]
            (fresh_world [(''/services/auth/h1:1'', ''{"address":"h1:1"}'', 0)]
               [None, Some (StoreError ''unavailable''), None] 10)) = [] \<and>
   calls (handle_events ''auth'' (Observer 0)
            [\<lparr>ev_type = PUT, ev_key = ''/services/auth/h1:1'', ev_value = ''{"address":"h1:1"}''\<rparr>,
             \<lparr>ev_type = DELETE, ev_key = ''/services/auth/h0:1'', ev_value = []\<rparr>,
             \<lparr>ev_type = DELETE, ev_key = ''/services/auth/h2:1'', ev_value = []\<rparr>,
             \<lparr>ev_type = DELETE, ev_key = ''/services/auth/h3:1'', ev_value = []\<rparr>]
            (fresh_world [(''/services/auth/h1:1'', ''{"address":"h1:1"}'', 0)]
               [None, Some (StoreError ''unavailable''), None] 10)) =
     [(OnEvent, Observer 0, [\<lparr>Name = [], Address = ''h1:1'', Version = []\<rparr>]),
      (OnEvent, Observer 0, [\<lparr>Name = [], Address = ''h1:1'', Version = []\<rparr>]),
      (OnEvent, Observer 0, [\<lparr>Name = [], Address = ''h1:1'', Version = []\<rparr>])]\<close>
proof -
  let ?w = \<open>fresh_world [(''/services/auth/h1:1'', ''{"address":"h1:1"}'', 0)]
              [None, Some (StoreError ''unavailable''), None] 10\<close>
  let ?q = \<open>fresh_world [(''/services/auth/h1:1'', ''{"address":"h1:1"}'', 0)] [] 10\<close>
  let ?evs = \<open>[\<lparr>ev_type = PUT, ev_key = ''/services/auth/h1:1'', ev_value = ''{"address":"h1:1"}''\<rparr>,
             \<lparr>ev_type = DELETE, ev_key = ''/services/auth/h0:1'', ev_value = []\<rparr>,
             \<lparr>ev_type = DELETE, ev_key = ''/services/auth/h2:1'', ev_value = []\<rparr>,
             \<lparr>ev_type = DELETE, ev_key = ''/services/auth/h3:1'', ev_value = []\<rparr>]\<close>
  have live: "\<not> cancelled ?w" and none: "calls ?w = []"
    and tape: "net ?w = [None, Some (StoreError ''unavailable''), None]"
    and same: "store ?q = store ?w"
    by (simp_all add: fresh_world_def)
  have snap: "fst (Discover ?q ''auth'') = Inr [\<lparr>Name = [], Address = ''h1:1'', Version = []\<rparr>]"
    by code_simp
  from handle_events_once_per_event [OF live, of "''auth''" "Observer 0" ?evs]
  obtain s where s: "\<forall>w1 t. store w1 = store ?w \<and> fst (Discover w1 ''auth'') = Inr t \<longrightarrow> t = s"
    and n: "net (handle_events ''auth'' (Observer 0) ?evs ?w) = drop (length ?evs) (net ?w)"
    and c: "calls (handle_events ''auth'' (Observer 0) ?evs ?w) =
              calls ?w @ map (\<lambda>x. (OnEvent, Observer 0, s))
                            (filter (\<lambda>x. x = None) (outcomes (length ?evs) (net ?w)))"
    by blast
  from s same snap have "s = [\<lparr>Name = [], Address = ''h1:1'', Version = []\<rparr>]" by metis
  with c n none live tape show ?thesis
    by (simp del: handle_events.simps)
qed

subsection \<open>The initial snapshot\<close>

text \<open>
  In any state, also one that goroutines have changed since the \<^verbatim>\<open>go\<close> statement: when
  the second part of \<^verbatim>\<open>Watch\<close> returns no error, it has called the callback once,
  with the snapshot that \<^verbatim>\<open>Discover\<close> returns in that state.
\<close>

lemma Watch_initial_delivers:
  assumes "Watch_initial w0 n cb = (Inr u, w')"
  shows "\<exists>snap. fst (Discover w0 n) = Inr snap \<and> calls w' = calls w0 @ [(Initial, cb, snap)]"
proof (cases rule: Discover_cases [of w0 n])
  case (fail err ns)
  with assms show ?thesis by (simp add: Watch_initial_def)
next
  case (ok ns)
  with assms show ?thesis by (auto simp: Watch_initial_def)
qed

text \<open>
  Claim C4. When \<^verbatim>\<open>Watch\<close> returns without an error, it has called the callback once
  before returning, with the snapshot that \<^verbatim>\<open>Discover\<close> returns at the time of the
  call.
\<close>

theorem Watch_initial_snapshot:
  assumes "Watch w n cb = (Inr u, w')"
  shows "\<exists>snap. fst (Discover w n) = Inr snap \<and> calls w' = calls w @ [(Initial, cb, snap)]"
proof -
  from assms have "Watch_initial (go_watch n cb w) n cb = (Inr u, w')"
    by (simp add: Watch_def)
  from Watch_initial_delivers [OF this]
  obtain snap where "fst (Discover (go_watch n cb w) n) = Inr snap"
    and "calls w' = calls (go_watch n cb w) @ [(Initial, cb, snap)]"
    by blast
  then have "fst (Discover w n) = Inr snap" and "calls w' = calls w @ [(Initial, cb, snap)]"
    by (simp_all add: Discover_go_watch) (simp add: go_watch_def)
  then show ?thesis by blast
qed

theorem Watch_initial_snapshot_witness:
  \<open>fst (Watch (fresh_world [(''/services/auth/h1:1'', ''{"address":"h1:1"}'', 0)] [] 10)
          ''auth'' (Observer 0)) = Inr () \<and>
   fst (Discover (fresh_world [(''/services/auth/h1:1'', ''{"address":"h1:1"}'', 0)] [] 10)
          ''auth'') = Inr [\<lparr>Name = [], Address = ''h1:1'', Version = []\<rparr>] \<and>
   calls (snd (Watch (fresh_world [(''/services/auth/h1:1'', ''{"address":"h1:1"}'', 0)] [] 10)
                 ''auth'' (Observer 0))) =
     [(Initial, Observer 0, [\<lparr>Name = [], Address = ''h1:1'', Version = []\<rparr>])]\<close>
proof -
  let ?w = \<open>fresh_world [(''/services/auth/h1:1'', ''{"address":"h1:1"}'', 0)] [] 10\<close>
  have ok: "fst (Watch ?w ''auth'' (Observer 0)) = Inr ()"
    by code_simp
  have snap: "fst (Discover ?w ''auth'') = Inr [\<lparr>Name = [], Address = ''h1:1'', Version = []\<rparr>]"
    by code_simp
  have none: "calls ?w = []"
    by (simp add: fresh_world_def)
  from ok have "Watch ?w ''auth'' (Observer 0) = (Inr (), snd (Watch ?w ''auth'' (Observer 0)))"
    by (metis prod.collapse)
  from Watch_initial_snapshot [OF this] ok snap none show ?thesis by auto
qed

subsection \<open>Steps and runs\<close>

text \<open>What the steps do to the list of watchers and to the record of calls.\<close>

lemma set_watcher_pc_fields [simp]:
  "map w_callback (watchers (set_watcher_pc i pc w)) = map w_callback (watchers w)"
  "length (watchers (set_watcher_pc i pc w)) = length (watchers w)"
  "calls (set_watcher_pc i pc w) = calls w"
  "cc_states (set_watcher_pc i pc w) = cc_states w"
  "cancelled (set_watcher_pc i pc w) = cancelled w"
  "net (set_watcher_pc i pc w) = net w"
  "store (set_watcher_pc i pc w) = store w"
proof -
  show "map w_callback (watchers (set_watcher_pc i pc w)) = map w_callback (watchers w)"
  proof (cases "i < length (watchers w)")
    case True
    then have "(map w_callback (watchers w))[i := w_callback (watchers w ! i)] =
               map w_callback (watchers w)"
      by (simp add: list_update_same_conv)
    then show ?thesis by (simp add: set_watcher_pc_def map_update)
  next
    case False
    then show ?thesis by (simp add: set_watcher_pc_def list_update_beyond)
  qed
qed (simp_all add: set_watcher_pc_def)

lemma Register_calls:
  "calls (snd (Register w n a v)) = calls w \<and> cc_states (snd (Register w n a v)) = cc_states w
   \<and> cancelled (snd (Register w n a v)) = cancelled w
   \<and> watchers (snd (Register w n a v)) = watchers w"
  by (simp add: Register_def json_Marshal_def lease_Grant_def kv_Put_def go_keepAlive_def
        Let_def rpc_def split: list.splits option.splits)

lemma Unregister_calls:
  "calls (snd (Unregister w n a)) = calls w \<and> cc_states (snd (Unregister w n a)) = cc_states w
   \<and> cancelled (snd (Unregister w n a)) = cancelled w
   \<and> watchers (snd (Unregister w n a)) = watchers w"
  by (simp add: Unregister_def kv_Delete_def rpc_def split: list.splits option.splits)

lemma Discover_calls:
  "calls (snd (Discover w n)) = calls w \<and> cc_states (snd (Discover w n)) = cc_states w
   \<and> cancelled (snd (Discover w n)) = cancelled w
   \<and> watchers (snd (Discover w n)) = watchers w \<and> in_Watch (snd (Discover w n)) = in_Watch w"
  by (cases rule: Discover_cases [of w n]) simp_all

lemma Close_calls:
  "calls (snd (Close w)) = calls w \<and> cc_states (snd (Close w)) = cc_states w
   \<and> cancelled (snd (Close w)) \<and> watchers (snd (Close w)) = watchers w"
  by (simp add: Close_def Let_def split: list.splits option.splits)

lemma keepAlive_start_calls:
  "calls (keepAlive_start i w) = calls w \<and> cc_states (keepAlive_start i w) = cc_states w
   \<and> cancelled (keepAlive_start i w) = cancelled w
   \<and> watchers (keepAlive_start i w) = watchers w"
  by (simp add: keepAlive_start_def set_keeper_pc_def Printf_def lease_KeepAlive_def
        split: list.splits option.splits)

lemma keepAlive_select_calls:
  "calls (keepAlive_select i msg w) = calls w \<and> cc_states (keepAlive_select i msg w) = cc_states w
   \<and> cancelled (keepAlive_select i msg w) = cancelled w
   \<and> watchers (keepAlive_select i msg w) = watchers w"
  by (simp add: keepAlive_select_def set_keeper_pc_def Printf_def
        split: ka_msg.splits option.splits)

lemma watch_start_calls:
  "calls (watch_start i w) = calls w \<and> cc_states (watch_start i w) = cc_states w
   \<and> cancelled (watch_start i w) = cancelled w
   \<and> map w_callback (watchers (watch_start i w)) = map w_callback (watchers w)"
  by (simp add: watch_start_def client_Watch_WithPrefix_def Let_def)

lemma receive_fields:
  "calls (snd (receive sid k w)) = calls w" "cc_states (snd (receive sid k w)) = cc_states w"
  "cancelled (snd (receive sid k w)) = cancelled w" "net (snd (receive sid k w)) = net w"
  "watchers (snd (receive sid k w)) = watchers w"
  by (simp_all add: receive_def Let_def)

lemma Watch_initial_extends: "\<exists>d. calls (snd (Watch_initial w n cb)) = calls w @ d"
  by (cases rule: Discover_cases [of w n]) (simp_all add: Watch_initial_def)

text \<open>
  The loop over the events of a response leaves the watchers as they are, and all the
  calls it adds are the calls of line 156 with the callback of the subscription.
\<close>

lemma handle_events_watchers: "watchers (handle_events n cb evs w) = watchers w"
proof (induction evs arbitrary: w)
  case Nil
  then show ?case by simp
next
  case (Cons ev evs)
  let ?p = "Printf (''Service changed: '' @ type_String (ev_type ev) @ '' '' @ ev_key ev
                      @ [CHR 0x0A]) w"
  show ?case
  proof (cases rule: Discover_cases [of ?p n])
    case (fail err ns)
    with Cons.IH [of "?p\<lparr>net := ns\<rparr>"] show ?thesis by simp
  next
    case (ok ns)
    let ?s = "decode_kvs (store_range (service_prefix n) (store ?p)) []"
    from ok Cons.IH [of "invoke OnEvent cb ?s (?p\<lparr>net := ns\<rparr>)"] show ?thesis by simp
  qed
qed

lemma handle_events_adds:
  "\<exists>d. calls (handle_events n cb evs w) = calls w @ d \<and>
       (\<forall>c\<in>set d. fst c = OnEvent \<and> fst (snd c) = cb)"
proof (induction evs arbitrary: w)
  case Nil
  then show ?case by simp
next
  case (Cons ev evs)
  let ?p = "Printf (''Service changed: '' @ type_String (ev_type ev) @ '' '' @ ev_key ev
                      @ [CHR 0x0A]) w"
  show ?case
  proof (cases rule: Discover_cases [of ?p n])
    case (fail err ns)
    obtain d where
      "calls (handle_events n cb evs (?p\<lparr>net := ns\<rparr>)) = calls (?p\<lparr>net := ns\<rparr>) @ d"
      "\<forall>c\<in>set d. fst c = OnEvent \<and> fst (snd c) = cb"
      using Cons.IH by blast
    with fail show ?thesis by simp
  next
    case (ok ns)
    let ?s = "decode_kvs (store_range (service_prefix n) (store ?p)) []"
    obtain d where d:
      "calls (handle_events n cb evs (invoke OnEvent cb ?s (?p\<lparr>net := ns\<rparr>))) =
         calls (invoke OnEvent cb ?s (?p\<lparr>net := ns\<rparr>)) @ d"
      "\<forall>c\<in>set d. fst c = OnEvent \<and> fst (snd c) = cb"
      using Cons.IH by blast
    have "calls (handle_events n cb (ev # evs) w) = calls w @ ((OnEvent, cb, ?s) # d)"
      using ok d(1) by simp
    moreover have "\<forall>c\<in>set ((OnEvent, cb, ?s) # d). fst c = OnEvent \<and> fst (snd c) = cb"
      using d(2) by simp
    ultimately show ?thesis by blast
  qed
qed

text \<open>
  No step changes the callback of a watcher, and only the \<^verbatim>\<open>go\<close> statement of
  \<^verbatim>\<open>Watch\<close> adds one.
\<close>

lemma watch_select_watchers:
  "map w_callback (watchers (watch_select i msg w)) = map w_callback (watchers w)"
  by (simp add: watch_select_def handle_events_watchers receive_fields case_prod_beta
        split: watcher_pc.splits w_msg.splits)

lemma watch_receive_fields:
  "map w_callback (watchers (watch_receive i k w)) = map w_callback (watchers w)"
  "calls (watch_receive i k w) = calls w"
  by (simp_all add: watch_receive_def receive_fields case_prod_beta split: watcher_pc.splits)

lemma watch_discover_fields:
  "map w_callback (watchers (watch_discover i w)) = map w_callback (watchers w)"
  "calls (watch_discover i w) = calls w"
proof -
  have "map w_callback (watchers (watch_discover i w)) = map w_callback (watchers w) \<and>
        calls (watch_discover i w) = calls w"
  proof (cases "i < length (watchers w)")
    case False
    then show ?thesis by (simp add: watch_discover_def)
  next
    case True
    show ?thesis
    proof (cases "w_pc (watchers w ! i)")
      case (W_Handling sid evs)
      show ?thesis
      proof (cases evs)
        case Nil
        with True W_Handling show ?thesis by (simp add: watch_discover_def)
      next
        case (Cons ev rest)
        let ?p = "Printf (''Service changed: '' @ type_String (ev_type ev) @ '' '' @ ev_key ev
                            @ [CHR 0x0A]) w"
        show ?thesis
          using True W_Handling Cons
          by (cases rule: Discover_cases [of ?p "w_name (watchers w ! i)"])
            (simp_all add: watch_discover_def)
      qed
    qed (use True in \<open>simp_all add: watch_discover_def\<close>)
  qed
  then show "map w_callback (watchers (watch_discover i w)) = map w_callback (watchers w)"
    and "calls (watch_discover i w) = calls w"
    by simp_all
qed

lemma watch_callback_watchers:
  "map w_callback (watchers (watch_callback i w)) = map w_callback (watchers w)"
  by (simp add: watch_callback_def split: watcher_pc.splits)

lemma Watch_discover_fields:
  "watchers (Watch_discover w n cb) = watchers w \<and> calls (Watch_discover w n cb) = calls w"
  by (cases rule: Discover_cases [of w n]) (simp_all add: Watch_discover_def)

lemma Watch_callback_watchers: "watchers (Watch_callback k w) = watchers w"
  by (simp add: Watch_callback_def)

lemma Watch_initial_watchers: "watchers (snd (Watch_initial w n cb)) = watchers w"
  by (cases rule: Discover_cases [of w n]) (simp_all add: Watch_initial_def)

lemma exec_callbacks:
  "map w_callback (watchers (exec a w)) =
     map w_callback (watchers w) @ (case a of Call_Watch_go n cb \<Rightarrow> [cb] | _ \<Rightarrow> [])"
  by (cases a)
    (simp_all add: exec_def Register_calls Unregister_calls Discover_calls Close_calls
       keepAlive_start_calls keepAlive_select_calls watch_start_calls go_watch_def
       etcdResolver_Close_def ResolveNow_def watch_select_watchers watch_receive_fields
       watch_discover_fields watch_callback_watchers Watch_discover_fields
       Watch_callback_watchers Watch_initial_watchers)

text \<open>
  Every step only adds calls of callbacks at the end of the record, and a call of line
  156 is added only by a step of a watcher, with the callback of that watcher.
\<close>

lemma watch_select_adds:
  "\<exists>d. calls (watch_select i msg w) = calls w @ d \<and>
       (\<forall>c\<in>set d. fst c = OnEvent \<and> i < length (watchers w) \<and>
                   fst (snd c) = w_callback (watchers w ! i))"
proof (cases "i < length (watchers w)")
  case False
  then show ?thesis by (simp add: watch_select_def)
next
  case True
  show ?thesis
  proof (cases "w_pc (watchers w ! i)")
    case (W_Loop sid)
    show ?thesis
    proof (cases msg)
      case W_CtxDone
      with True W_Loop show ?thesis by (simp add: watch_select_def)
    next
      case (W_Resp k)
      show ?thesis
      proof (cases "sid < length (streams (store w))")
        case False
        with True W_Loop W_Resp show ?thesis by (simp add: watch_select_def)
      next
        case sid: True
        obtain d where
          "calls (handle_events (w_name (watchers w ! i)) (w_callback (watchers w ! i))
                    (fst (receive sid k w)) (snd (receive sid k w))) =
             calls (snd (receive sid k w)) @ d"
          "\<forall>c\<in>set d. fst c = OnEvent \<and> fst (snd c) = w_callback (watchers w ! i)"
          using handle_events_adds by blast
        with True W_Loop W_Resp sid show ?thesis
          by (simp add: watch_select_def receive_fields case_prod_beta)
      qed
    qed
  qed (use True in \<open>simp_all add: watch_select_def\<close>)
qed

lemma watch_callback_adds:
  "\<exists>d. calls (watch_callback i w) = calls w @ d \<and>
       (\<forall>c\<in>set d. fst c = OnEvent \<and> i < length (watchers w) \<and>
                   fst (snd c) = w_callback (watchers w ! i))"
  by (simp add: watch_callback_def split: watcher_pc.splits)

lemma Watch_initial_adds:
  "\<exists>d. calls (snd (Watch_initial w n cb)) = calls w @ d \<and> (\<forall>c\<in>set d. fst c = Initial)"
  by (cases rule: Discover_cases [of w n]) (simp_all add: Watch_initial_def)

lemma Watch_callback_adds:
  "\<exists>d. calls (Watch_callback k w) = calls w @ d \<and> (\<forall>c\<in>set d. fst c = Initial)"
  by (simp add: Watch_callback_def)

lemma exec_adds:
  "\<exists>d. calls (exec a w) = calls w @ d \<and>
       (\<forall>c\<in>set d. fst c = OnEvent \<longrightarrow>
          (\<exists>j < length (watchers w). task_step j a \<and> fst (snd c) = w_callback (watchers w ! j)))"
proof (cases a)
  case (Call_Watch_initial n cb)
  obtain d where "calls (snd (Watch_initial w n cb)) = calls w @ d" "\<forall>c\<in>set d. fst c = Initial"
    using Watch_initial_adds by blast
  with Call_Watch_initial show ?thesis by (auto simp: exec_def)
next
  case (Call_Watch_callback k)
  obtain d where "calls (Watch_callback k w) = calls w @ d" "\<forall>c\<in>set d. fst c = Initial"
    using Watch_callback_adds by blast
  with Call_Watch_callback show ?thesis by (auto simp: exec_def)
next
  case (Watcher_select i msg)
  obtain d where "calls (watch_select i msg w) = calls w @ d"
    "\<forall>c\<in>set d. fst c = OnEvent \<and> i < length (watchers w) \<and>
                fst (snd c) = w_callback (watchers w ! i)"
    using watch_select_adds by blast
  with Watcher_select show ?thesis by (auto simp: exec_def task_step_def)
next
  case (Watcher_callback i)
  obtain d where "calls (watch_callback i w) = calls w @ d"
    "\<forall>c\<in>set d. fst c = OnEvent \<and> i < length (watchers w) \<and>
                fst (snd c) = w_callback (watchers w ! i)"
    using watch_callback_adds by blast
  with Watcher_callback show ?thesis by (auto simp: exec_def task_step_def)
qed (simp_all add: exec_def Register_calls Unregister_calls Discover_calls Close_calls
       keepAlive_start_calls keepAlive_select_calls watch_start_calls go_watch_def
       etcdResolver_Close_def ResolveNow_def watch_receive_fields watch_discover_fields
       Watch_discover_fields)

lemma exec_extends: "\<exists>d. calls (exec a w) = calls w @ d"
  using exec_adds [of a w] by blast

lemma run_extends: "\<exists>d. calls (run sched w) = calls w @ d"
proof (induction sched arbitrary: w)
  case Nil
  then show ?case by simp
next
  case (Cons a sched)
  obtain d1 where "calls (exec a w) = calls w @ d1" using exec_extends by blast
  moreover obtain d2 where "calls (run sched (exec a w)) = calls (exec a w) @ d2"
    using Cons.IH by blast
  ultimately show ?case by simp
qed

lemma run_append: "run (xs @ ys) w = run ys (run xs w)"
  by (induction xs arbitrary: w) simp_all

text \<open>
  The two steps of the second part of \<^verbatim>\<open>Watch\<close>, one after the other, are that part
  in one step.
\<close>

lemma Watch_initial_two_steps:
  "run [Call_Watch_discover n cb, Call_Watch_callback (length (in_Watch w))] w =
     snd (Watch_initial w n cb)"
  by (cases rule: Discover_cases [of w n])
    (simp_all add: exec_def Watch_discover_def Watch_callback_def Watch_initial_def)

text \<open>
  The same for the watcher. The loop over the events does not look at the watchers.
\<close>

lemma Discover_watchers_update:
  "Discover (w\<lparr>watchers := x\<rparr>) n = (fst (Discover w n), (snd (Discover w n))\<lparr>watchers := x\<rparr>)"
  by (simp add: Discover_def kv_Get_WithPrefix_def rpc_def split: list.splits option.splits)

lemma invoke_watchers_update:
  "invoke org cb s (w\<lparr>watchers := x\<rparr>) = (invoke org cb s w)\<lparr>watchers := x\<rparr>"
  by (simp add: invoke_def Let_def split: callback.splits)

lemma handle_events_watchers_update:
  "handle_events n cb evs (w\<lparr>watchers := x\<rparr>) = (handle_events n cb evs w)\<lparr>watchers := x\<rparr>"
proof (induction evs arbitrary: w)
  case Nil
  then show ?case by simp
next
  case (Cons ev evs)
  let ?l = "''Service changed: '' @ type_String (ev_type ev) @ '' '' @ ev_key ev @ [CHR 0x0A]"
  have p: "Printf ?l (w\<lparr>watchers := x\<rparr>) = (Printf ?l w)\<lparr>watchers := x\<rparr>"
    by (simp add: Printf_def)
  obtain res w1 where d: "Discover (Printf ?l w) n = (res, w1)"
    by (cases "Discover (Printf ?l w) n")
  then have d': "Discover ((Printf ?l w)\<lparr>watchers := x\<rparr>) n = (res, w1\<lparr>watchers := x\<rparr>)"
    by (simp add: Discover_watchers_update)
  show ?case
  proof (cases res)
    case (Inl err)
    with d d' p Cons.IH [of w1] show ?thesis by simp
  next
    case (Inr s)
    with d d' p Cons.IH [of "invoke OnEvent cb s w1"] show ?thesis
      by (simp add: invoke_watchers_update)
  qed
qed

text \<open>
  In a watcher that stands in the loop over the events \<open>evs\<close> of a response, the steps
  for \<^verbatim>\<open>Discover\<close> and for the callback, taken in turn once for every event with
  nothing in between, do what \<open>handle_events\<close> does, and leave the watcher at its
  \<^verbatim>\<open>select\<close>.
\<close>

lemma handle_events_in_steps:
  assumes "i < length (watchers w)" and "w_pc (watchers w ! i) = next_pc sid evs"
  shows "run (concat (replicate (length evs) [Watcher_discover i, Watcher_callback i])) w =
           set_watcher_pc i (W_Loop sid)
             (handle_events (w_name (watchers w ! i)) (w_callback (watchers w ! i)) evs w)"
  using assms
proof (induction evs arbitrary: w)
  case Nil
  then have "(watchers w)[i := (watchers w ! i)\<lparr>w_pc := W_Loop sid\<rparr>] = watchers w"
    by (simp add: next_pc_def list_update_same_conv)
  then show ?case by (simp add: set_watcher_pc_def)
next
  case (Cons ev evs)
  let ?n = "w_name (watchers w ! i)"
  let ?cb = "w_callback (watchers w ! i)"
  let ?l = "''Service changed: '' @ type_String (ev_type ev) @ '' '' @ ev_key ev @ [CHR 0x0A]"
  have pc: "w_pc (watchers w ! i) = W_Handling sid (ev # evs)"
    using Cons.prems(2) by (simp add: next_pc_def)
  obtain res w1 where d: "Discover (Printf ?l w) ?n = (res, w1)"
    by (cases "Discover (Printf ?l w) ?n")
  have w1: "watchers w1 = watchers w"
    using Discover_calls [of "Printf ?l w" ?n] d by simp
  show ?case
  proof (cases res)
    case (Inl err)
    let ?w' = "set_watcher_pc i (next_pc sid evs) w1"
    have step1: "exec (Watcher_discover i) w = ?w'"
      using Cons.prems(1) pc d Inl by (simp add: exec_def watch_discover_def)
    have w': "i < length (watchers ?w')" "w_pc (watchers ?w' ! i) = next_pc sid evs"
      "w_name (watchers ?w' ! i) = ?n" "w_callback (watchers ?w' ! i) = ?cb"
      using Cons.prems(1) w1 by (simp_all add: set_watcher_pc_def)
    have step2: "exec (Watcher_callback i) ?w' = ?w'"
      using w'(1,2) by (simp add: exec_def watch_callback_def next_pc_def split: list.splits)
    have "run (concat (replicate (length (ev # evs)) [Watcher_discover i, Watcher_callback i])) w =
          run (concat (replicate (length evs) [Watcher_discover i, Watcher_callback i])) ?w'"
      using step1 step2 by simp
    also have "\<dots> = set_watcher_pc i (W_Loop sid) (handle_events ?n ?cb evs ?w')"
      using Cons.IH [OF w'(1,2)] w'(3,4) by simp
    also have "\<dots> = set_watcher_pc i (W_Loop sid) (handle_events ?n ?cb evs w1)"
      using w1 Cons.prems(1)
      by (simp add: handle_events_watchers_update set_watcher_pc_def handle_events_watchers)
    also have "\<dots> = set_watcher_pc i (W_Loop sid) (handle_events ?n ?cb (ev # evs) w)"
      using d Inl by simp
    finally show ?thesis .
  next
    case (Inr s)
    let ?w' = "set_watcher_pc i (W_Deliver sid evs s) w1"
    let ?w'' = "set_watcher_pc i (next_pc sid evs) (invoke OnEvent ?cb s w1)"
    have step1: "exec (Watcher_discover i) w = ?w'"
      using Cons.prems(1) pc d Inr by (simp add: exec_def watch_discover_def)
    have step2: "exec (Watcher_callback i) ?w' = ?w''"
      using Cons.prems(1) w1
      by (simp add: exec_def watch_callback_def set_watcher_pc_def invoke_watchers_update)
    have w'': "i < length (watchers ?w'')" "w_pc (watchers ?w'' ! i) = next_pc sid evs"
      "w_name (watchers ?w'' ! i) = ?n" "w_callback (watchers ?w'' ! i) = ?cb"
      using Cons.prems(1) w1 by (simp_all add: set_watcher_pc_def)
    have "run (concat (replicate (length (ev # evs)) [Watcher_discover i, Watcher_callback i])) w =
          run (concat (replicate (length evs) [Watcher_discover i, Watcher_callback i])) ?w''"
      using step1 step2 by simp
    also have "\<dots> = set_watcher_pc i (W_Loop sid) (handle_events ?n ?cb evs ?w'')"
      using Cons.IH [OF w''(1,2)] w''(3,4) by simp
    also have "\<dots> = set_watcher_pc i (W_Loop sid)
                        (handle_events ?n ?cb evs (invoke OnEvent ?cb s w1))"
      using w1 Cons.prems(1)
      by (simp add: handle_events_watchers_update set_watcher_pc_def handle_events_watchers)
    also have "\<dots> = set_watcher_pc i (W_Loop sid) (handle_events ?n ?cb (ev # evs) w)"
      using d Inr by simp
    finally show ?thesis .
  qed
qed

text \<open>
  So \<open>watch_select\<close> with a response is one of the runs of the three steps: the one in
  which nothing else happens while the watcher handles the response.
\<close>

lemma watch_select_in_steps:
  assumes "i < length (watchers w)" and "w_pc (watchers w ! i) = W_Loop sid"
    and "sid < length (streams (store w))"
  shows "run (Watcher_receive i k #
              concat (replicate (length (fst (receive sid k w)))
                        [Watcher_discover i, Watcher_callback i])) w =
           watch_select i (W_Resp k) w"
proof -
  let ?evs = "fst (receive sid k w)"
  let ?r = "snd (receive sid k w)"
  let ?w1 = "set_watcher_pc i (next_pc sid ?evs) ?r"
  have r: "watchers ?r = watchers w" by (simp add: receive_fields)
  have step: "exec (Watcher_receive i k) w = ?w1"
    using assms by (simp add: exec_def watch_receive_def case_prod_beta)
  have w1: "i < length (watchers ?w1)" "w_pc (watchers ?w1 ! i) = next_pc sid ?evs"
    "w_name (watchers ?w1 ! i) = w_name (watchers w ! i)"
    "w_callback (watchers ?w1 ! i) = w_callback (watchers w ! i)"
    using assms(1) r by (simp_all add: set_watcher_pc_def)
  let ?n = "w_name (watchers w ! i)"
  let ?cb = "w_callback (watchers w ! i)"
  have same: "(watchers w)[i := (watchers w ! i)\<lparr>w_pc := W_Loop sid\<rparr>] = watchers w"
    using assms(1,2) by (simp add: list_update_same_conv)
  have "run (Watcher_receive i k #
             concat (replicate (length ?evs) [Watcher_discover i, Watcher_callback i])) w =
        set_watcher_pc i (W_Loop sid) (handle_events ?n ?cb ?evs ?w1)"
    using step handle_events_in_steps [OF w1(1,2)] w1(3,4) by simp
  also have "\<dots> = set_watcher_pc i (W_Loop sid) (handle_events ?n ?cb ?evs ?r)"
    using r assms(1)
    by (simp add: handle_events_watchers_update set_watcher_pc_def handle_events_watchers)
  also have "\<dots> = handle_events ?n ?cb ?evs ?r"
    using same r
    by (simp add: set_watcher_pc_def handle_events_watchers)
  also have "\<dots> = watch_select i (W_Resp k) w"
    using assms by (simp add: watch_select_def case_prod_beta)
  finally show ?thesis .
qed

text \<open>
  A run in which the watcher that stands at position \<open>length pre\<close> takes no step, and
  in which no other call of \<^verbatim>\<open>Watch\<close> gives the callback \<open>cb\<close> of that watcher to a
  watcher of its own: no call of line 156 with \<open>cb\<close> is made in it.
\<close>

lemma run_without_task:
  assumes "map w_callback (watchers w) = pre @ cb # extra"
    and "cb \<notin> set pre" and "cb \<notin> set extra"
    and "\<forall>a\<in>set sched. \<not> task_step (length pre) a \<and> \<not> subscribes cb a"
  shows "\<exists>d extra'. calls (run sched w) = calls w @ d \<and> (\<forall>s. (OnEvent, cb, s) \<notin> set d) \<and>
           map w_callback (watchers (run sched w)) = pre @ cb # extra' \<and> cb \<notin> set extra'"
  using assms
proof (induction sched arbitrary: w extra)
  case Nil
  then show ?case by simp
next
  case (Cons a sched)
  have a: "\<not> task_step (length pre) a" "\<not> subscribes cb a"
    using Cons.prems(4) by simp_all
  obtain d1 where d1: "calls (exec a w) = calls w @ d1"
    and from_task: "\<forall>c\<in>set d1. fst c = OnEvent \<longrightarrow>
          (\<exists>j < length (watchers w). task_step j a \<and> fst (snd c) = w_callback (watchers w ! j))"
    using exec_adds [of a w] by blast
  have none: "(OnEvent, cb, s) \<notin> set d1" for s
  proof
    assume "(OnEvent, cb, s) \<in> set d1"
    with from_task obtain j where j: "j < length (watchers w)" "task_step j a"
      "w_callback (watchers w ! j) = cb"
      by fastforce
    from j(2) a(1) have neq: "j \<noteq> length pre" by blast
    have "map w_callback (watchers w) ! j = w_callback (watchers w ! j)"
      using j(1) by (rule nth_map)
    then have at: "(pre @ cb # extra) ! j = cb"
      unfolding Cons.prems(1) j(3) .
    have len: "j < length (pre @ cb # extra)"
      using j(1) Cons.prems(1) by (metis length_map)
    show False
    proof (cases "j < length pre")
      case True
      then have "pre ! j = cb" using at by (simp only: nth_append if_True)
      with True Cons.prems(2) show False by (metis nth_mem)
    next
      case False
      with neq have gt: "length pre < j" by simp
      define k where "k = j - Suc (length pre)"
      have k: "j = length pre + Suc k" using gt by (simp add: k_def)
      have "(pre @ cb # extra) ! (length pre + Suc k) = extra ! k"
        by (simp only: nth_append_length_plus nth_Cons_Suc)
      with at k have "extra ! k = cb" by (simp only:)
      moreover from len k have "k < length extra" by simp
      ultimately show False using Cons.prems(3) by (metis nth_mem)
    qed
  qed
  define added where "added = (case a of Call_Watch_go n cb' \<Rightarrow> [cb'] | _ \<Rightarrow> [])"
  have cbs: "map w_callback (watchers (exec a w)) = pre @ cb # (extra @ added)"
    using exec_callbacks [of a w] Cons.prems(1) by (simp add: added_def)
  have fresh: "cb \<notin> set (extra @ added)"
    using a(2) Cons.prems(3) by (cases a) (simp_all add: added_def subscribes_def)
  have rest: "\<forall>a\<in>set sched. \<not> task_step (length pre) a \<and> \<not> subscribes cb a"
    using Cons.prems(4) by simp
  from Cons.IH [OF cbs Cons.prems(2) fresh rest]
  obtain d2 extra' where d2: "calls (run sched (exec a w)) = calls (exec a w) @ d2"
    "\<forall>s. (OnEvent, cb, s) \<notin> set d2"
    "map w_callback (watchers (run sched (exec a w))) = pre @ cb # extra'" "cb \<notin> set extra'"
    by blast
  have "calls (run (a # sched) w) = calls w @ (d1 @ d2)"
    using d1 d2(1) by simp
  moreover have "\<forall>s. (OnEvent, cb, s) \<notin> set (d1 @ d2)"
    using none d2(2) by simp
  ultimately show ?case using d2(3,4) by (intro exI [of _ "d1 @ d2"] exI [of _ extra']) simp
qed

subsection \<open>A failed \<^verbatim>\<open>Watch\<close>\<close>




subsection \<open>The order of the initial snapshot\<close>

text \<open>
  Claim C5, as the code has it. \<^verbatim>\<open>Watch\<close> starts its goroutine (line 144) before it
  takes the initial snapshot (line 164). In this run the goroutine opens its stream,
  another client writes a key, and the goroutine handles the event, all before the
  caller of \<^verbatim>\<open>Watch\<close> reaches line 164: the observer gets the snapshot of the event
  first and the initial snapshot second.
\<close>

theorem event_before_initial_counterexample:
  \<open>calls (run [Call_Watch_go ''auth'' (Observer 0),
               Watcher_start 0,
               Other_put ''/services/auth/h1:1'' ''{"address":"h1:1"}'',
               Watcher_select 0 (W_Resp 1),
               Call_Watch_initial ''auth'' (Observer 0)]
          (fresh_world [] [] 10)) =
     [(OnEvent, Observer 0, [\<lparr>Name = [], Address = ''h1:1'', Version = []\<rparr>]),
      (Initial, Observer 0, [\<lparr>Name = [], Address = ''h1:1'', Version = []\<rparr>])]\<close>
  by code_simp

text \<open>
  The caller of \<^verbatim>\<open>Watch\<close> can also be overtaken between its \<^verbatim>\<open>Discover\<close> (line 164)
  and its callback (line 168). Here it takes its snapshot of the empty table, then
  another client writes a key and the goroutine handles the event, and only then the
  caller reaches line 168: the observer gets the new snapshot first and the older one,
  as the initial snapshot, last.
\<close>

lemma event_between_Discover_and_callback:
  \<open>calls (run [Call_Watch_go ''auth'' (Observer 0),
               Watcher_start 0,
               Call_Watch_discover ''auth'' (Observer 0),
               Other_put ''/services/auth/h1:1'' ''{"address":"h1:1"}'',
               Watcher_receive 0 1, Watcher_discover 0, Watcher_callback 0,
               Call_Watch_callback 0]
          (fresh_world [] [] 10)) =
     [(OnEvent, Observer 0, [\<lparr>Name = [], Address = ''h1:1'', Version = []\<rparr>]),
      (Initial, Observer 0, [])]\<close>
  by code_simp

text \<open>
  Claim C5, amended. The goroutine is started (line 144) before the initial snapshot
  is taken (line 164) and delivered (line 168), and nothing synchronises it with the
  caller. Whatever runs between the \<^verbatim>\<open>go\<close> statement and line 164 (\<open>before\<close>), between
  line 164 and line 168 (\<open>between\<close>) and after line 168 (\<open>after\<close>), the calls of
  callbacks come in this order: those made before the caller reaches line 168, then the
  initial snapshot, which is the one taken at line 164, then those made later. The
  initial snapshot precedes every snapshot that the goroutine of the subscription
  delivers when that goroutine takes no step before line 168 (and \<open>cb\<close> is the callback
  of no other subscription); otherwise what the goroutine has delivered by then comes
  first.
\<close>

theorem Watch_initial_order:
  assumes "fst (Discover (run before (go_watch n cb w)) n) = Inr snap"
  shows "\<exists>early late.
           calls (run between (snd (Discover (run before (go_watch n cb w)) n))) =
             calls w @ early \<and>
           calls (run after
                    (invoke Initial cb snap
                       (run between (snd (Discover (run before (go_watch n cb w)) n))))) =
             calls w @ early @ [(Initial, cb, snap)] @ late \<and>
           (cb \<notin> w_callback ` set (watchers w) \<and>
            (\<forall>a\<in>set (before @ between).
                \<not> task_step (length (watchers w)) a \<and> \<not> subscribes cb a) \<longrightarrow>
            (\<forall>s. (OnEvent, cb, s) \<notin> set early))"
proof -
  let ?w0 = "go_watch n cb w"
  let ?wb = "run before ?w0"
  let ?w1 = "snd (Discover ?wb n)"
  let ?w2 = "run between ?w1"
  let ?pre = "map w_callback (watchers w)"
  obtain e1 where e1: "calls ?wb = calls w @ e1"
    using run_extends [of before ?w0] by (auto simp: go_watch_def)
  have w1: "calls ?w1 = calls ?wb" "watchers ?w1 = watchers ?wb"
    using Discover_calls [of ?wb n] by simp_all
  obtain e2 where e2: "calls ?w2 = calls ?w1 @ e2"
    using run_extends by blast
  obtain late where late:
    "calls (run after (invoke Initial cb snap ?w2)) = calls (invoke Initial cb snap ?w2) @ late"
    using run_extends by blast
  have early: "calls ?w2 = calls w @ (e1 @ e2)"
    using e1 e2 w1(1) by simp
  have all: "calls (run after (invoke Initial cb snap ?w2)) =
               calls w @ (e1 @ e2) @ [(Initial, cb, snap)] @ late"
    using late early by simp
  have quiet: "\<forall>s. (OnEvent, cb, s) \<notin> set (e1 @ e2)"
    if fresh: "cb \<notin> w_callback ` set (watchers w)"
      and still: "\<forall>a\<in>set (before @ between).
                    \<not> task_step (length (watchers w)) a \<and> \<not> subscribes cb a"
  proof -
    have cbs0: "map w_callback (watchers ?w0) = ?pre @ cb # []"
      by (simp add: go_watch_def)
    have f: "cb \<notin> set ?pre" using fresh by simp
    have s1: "\<forall>a\<in>set before. \<not> task_step (length ?pre) a \<and> \<not> subscribes cb a"
      and s2: "\<forall>a\<in>set between. \<not> task_step (length ?pre) a \<and> \<not> subscribes cb a"
      using still by simp_all
    from run_without_task [OF cbs0 f _ s1]
    obtain d1 x1 where d1: "calls ?wb = calls ?w0 @ d1" "\<forall>s. (OnEvent, cb, s) \<notin> set d1"
      "map w_callback (watchers ?wb) = ?pre @ cb # x1" "cb \<notin> set x1"
      by auto
    have cbs1: "map w_callback (watchers ?w1) = ?pre @ cb # x1"
      using d1(3) w1(2) by simp
    from run_without_task [OF cbs1 f d1(4) s2]
    obtain d2 x2 where d2: "calls ?w2 = calls ?w1 @ d2" "\<forall>s. (OnEvent, cb, s) \<notin> set d2"
      by auto
    have "d1 = e1" using d1(1) e1 by (simp add: go_watch_def)
    moreover have "d2 = e2" using d2(1) e2 by simp
    ultimately show ?thesis using d1(2) d2(2) by simp
  qed
  from early all quiet show ?thesis
    by (intro exI [of _ "e1 @ e2"] exI [of _ late]) blast
qed

text \<open>
  Two writes of another client before line 168, one of them between line 164 and line
  168, and a goroutine that takes its first step after it: the initial snapshot, which
  lacks the second write, comes first, and the snapshot of a later event second.
\<close>

theorem Watch_initial_order_witness:
  \<open>fst (Discover (run [Other_put ''/services/auth/h1:1'' ''{"address":"h1:1"}'']
                   (go_watch ''auth'' (Observer 0) (fresh_world [] [] 10))) ''auth'') =
     Inr [\<lparr>Name = [], Address = ''h1:1'', Version = []\<rparr>] \<and>
   Observer 0 \<notin> w_callback ` set (watchers (fresh_world [] [] 10)) \<and>
   list_all (\<lambda>a. \<not> task_step (length (watchers (fresh_world [] [] 10))) a \<and>
                  \<not> subscribes (Observer 0) a)
     ([Other_put ''/services/auth/h1:1'' ''{"address":"h1:1"}''] @
      [Other_put ''/services/auth/h2:1'' ''{"address":"h2:1"}'']) \<and>
   calls (run [Watcher_start 0, Other_delete ''/services/auth/h1:1'',
               Watcher_receive 0 1, Watcher_discover 0, Watcher_callback 0]
            (invoke Initial (Observer 0) [\<lparr>Name = [], Address = ''h1:1'', Version = []\<rparr>]
               (run [Other_put ''/services/auth/h2:1'' ''{"address":"h2:1"}'']
                  (snd (Discover
                          (run [Other_put ''/services/auth/h1:1'' ''{"address":"h1:1"}'']
                             (go_watch ''auth'' (Observer 0) (fresh_world [] [] 10)))
                          ''auth''))))) =
     [(Initial, Observer 0, [\<lparr>Name = [], Address = ''h1:1'', Version = []\<rparr>]),
      (OnEvent, Observer 0, [\<lparr>Name = [], Address = ''h2:1'', Version = []\<rparr>])]\<close>
proof -
  let ?before = \<open>[Other_put ''/services/auth/h1:1'' ''{"address":"h1:1"}'']\<close>
  let ?between = \<open>[Other_put ''/services/auth/h2:1'' ''{"address":"h2:1"}'']\<close>
  let ?after = "[Watcher_start 0, Other_delete ''/services/auth/h1:1'',
                 Watcher_receive 0 1, Watcher_discover 0, Watcher_callback 0]"
  let ?w = "fresh_world [] [] 10"
  let ?wb = "run ?before (go_watch ''auth'' (Observer 0) ?w)"
  let ?snap = "[\<lparr>Name = [], Address = ''h1:1'', Version = []\<rparr>]"
  have taken: "fst (Discover ?wb ''auth'') = Inr ?snap"
    by code_simp
  have fresh: "Observer 0 \<notin> w_callback ` set (watchers ?w)"
    by (simp add: fresh_world_def)
  have still: "list_all (\<lambda>a. \<not> task_step (length (watchers ?w)) a \<and>
                               \<not> subscribes (Observer 0) a) (?before @ ?between)"
    by (simp add: task_step_def subscribes_def)
  have log: "calls (run ?after (invoke Initial (Observer 0) ?snap
                                  (run ?between (snd (Discover ?wb ''auth''))))) =
               [(Initial, Observer 0, ?snap),
                (OnEvent, Observer 0, [\<lparr>Name = [], Address = ''h2:1'', Version = []\<rparr>])]"
    by code_simp
  from Watch_initial_order [OF taken, of ?between ?after] taken fresh still log
  show ?thesis by simp
qed

section \<open>Properties of the resolver\<close>

text \<open>
  Claim C2, as the code has it. The body of \<^verbatim>\<open>etcdResolver.Close\<close> is empty. After
  \<^verbatim>\<open>Build\<close> and \<^verbatim>\<open>Close\<close> on the resolver it returned, the goroutine of the
  subscription opens its stream, receives the event of a write and hands a new address
  list to the \<^verbatim>\<open>ClientConn\<close>; the goroutine is still in its loop.
\<close>

theorem resolver_Close_counterexample:
  \<open>(let w1 = etcdResolver_Close (fst (fst (Build (fresh_world [] [] 10) ''auth'' 7)))
               (snd (Build (fresh_world [] [] 10) ''auth'' 7));
        w2 = run [Watcher_start 0,
                  Other_put ''/services/auth/h1:1'' ''{"address":"h1:1"}'',
                  Watcher_select 0 (W_Resp 1)] w1
    in cc_states w1 = [(7, [])] \<and> cc_states w2 = [(7, []), (7, [''h1:1''])] \<and>
       map w_pc (watchers w2) = [W_Loop 0])\<close>
  by code_simp

text \<open>
  A watcher that has not yet run, in a state with a live context and a quiet network,
  step by step: it opens its stream, another client writes a key of the service, the
  watcher takes the response off the channel, runs \<^verbatim>\<open>Discover\<close> and calls the
  callback with the snapshot of the table after the write; then it is back at its
  \<^verbatim>\<open>select\<close>.
\<close>

lemma watcher_delivers_later:
  assumes live: "\<not> cancelled w'" and quiet: "net w' = []"
    and ws: "watchers w' = ws @ [\<lparr>w_name = n, w_callback = cb, w_pc = W_Start\<rparr>]"
  shows "\<exists>snap.
           fst (Discover (exec (Other_put (service_key n a) v) w') n) = Inr snap \<and>
           calls (run [Watcher_start (length ws), Other_put (service_key n a) v,
                       Watcher_receive (length ws) 1, Watcher_discover (length ws),
                       Watcher_callback (length ws)] w')
             = calls w' @ [(OnEvent, cb, snap)] \<and>
           cc_states (run [Watcher_start (length ws), Other_put (service_key n a) v,
                           Watcher_receive (length ws) 1, Watcher_discover (length ws),
                           Watcher_callback (length ws)] w')
             = cc_states w' @ (case cb of UpdateState cc \<Rightarrow> [(cc, map Address snap)]
                                        | Observer k \<Rightarrow> []) \<and>
           map w_pc (watchers (run [Watcher_start (length ws), Other_put (service_key n a) v,
                                    Watcher_receive (length ws) 1, Watcher_discover (length ws),
                                    Watcher_callback (length ws)] w'))
             = map w_pc ws @ [W_Loop (length (streams (store w')))]"
proof -
  let ?i = "length ws"
  let ?sid = "length (streams (store w'))"
  let ?k = "service_key n a"
  let ?ev = "\<lparr>ev_type = PUT, ev_key = ?k, ev_value = v\<rparr>"
  let ?snap = "decode_kvs (store_range (service_prefix n) (store_put ?k v 0 (store w'))) []"
  let ?w1 = "watch_start ?i w'"
  let ?w2 = "?w1\<lparr>store := store_put ?k v 0 (store ?w1)\<rparr>"
  let ?w3 = "watch_receive ?i 1 ?w2"
  let ?w4 = "watch_discover ?i ?w3"
  let ?w5 = "watch_callback ?i ?w4"
  have w1: "watchers ?w1 = ws @ [\<lparr>w_name = n, w_callback = cb, w_pc = W_Loop ?sid\<rparr>]"
    "streams (store ?w1) = streams (store w') @ [\<lparr>ws_prefix = service_prefix n, pending = []\<rparr>]"
    "kvs (store ?w1) = kvs (store w')"
    "calls ?w1 = calls w'" "cc_states ?w1 = cc_states w'" "\<not> cancelled ?w1" "net ?w1 = []"
    using assms
    by (simp_all add: watch_start_def set_watcher_pc_def client_Watch_WithPrefix_def Let_def)
  have pre: "has_prefix (service_prefix n) ?k"
    by (simp add: has_prefix_def service_prefix_def service_key_def)
  have w2: "watchers ?w2 = ws @ [\<lparr>w_name = n, w_callback = cb, w_pc = W_Loop ?sid\<rparr>]"
    "calls ?w2 = calls w'" "cc_states ?w2 = cc_states w'" "\<not> cancelled ?w2" "net ?w2 = []"
    "length (streams (store ?w2)) = Suc ?sid"
    "pending (streams (store ?w2) ! ?sid) = [?ev]"
    "kvs (store ?w2) = kvs (store_put ?k v 0 (store w'))"
    using w1 pre by (simp_all add: store_put_def notify_def nth_append)
  let ?r = "snd (receive ?sid 1 ?w2)"
  have r: "fst (receive ?sid 1 ?w2) = [?ev]" "watchers ?r = watchers ?w2"
    "calls ?r = calls w'" "cc_states ?r = cc_states w'" "\<not> cancelled ?r" "net ?r = []"
    "kvs (store ?r) = kvs (store ?w2)"
    using w2 by (simp_all add: receive_def Let_def)
  have "?w3 = set_watcher_pc ?i (W_Handling ?sid [?ev]) ?r"
    using w2(1,6) r(1) by (simp add: watch_receive_def next_pc_def case_prod_beta)
  then have w3: "watchers ?w3 = ws @ [\<lparr>w_name = n, w_callback = cb,
                                         w_pc = W_Handling ?sid [?ev]\<rparr>]"
    "calls ?w3 = calls w'" "cc_states ?w3 = cc_states w'" "\<not> cancelled ?w3" "net ?w3 = []"
    "kvs (store ?w3) = kvs (store_put ?k v 0 (store w'))"
    using r w2(1,8) by (simp_all add: set_watcher_pc_def)
  have range: "store_range (service_prefix n) (store ?w3) =
               store_range (service_prefix n) (store_put ?k v 0 (store w'))"
    using w3(6) by (simp add: store_range_def)
  let ?p = "Printf (''Service changed: '' @ type_String (ev_type ?ev) @ '' '' @ ev_key ?ev
                      @ [CHR 0x0A]) ?w3"
  have d: "Discover ?p n = (Inr ?snap, ?p)"
    using Discover_quiet [of ?p n] w3(4,5) range by simp
  have "?w4 = set_watcher_pc ?i (W_Deliver ?sid [] ?snap) ?p"
    using w3(1) d by (simp add: watch_discover_def)
  then have w4: "watchers ?w4 = ws @ [\<lparr>w_name = n, w_callback = cb,
                                         w_pc = W_Deliver ?sid [] ?snap\<rparr>]"
    "calls ?w4 = calls w'" "cc_states ?w4 = cc_states w'"
    using w3 by (simp_all add: set_watcher_pc_def)
  have "?w5 = set_watcher_pc ?i (W_Loop ?sid) (invoke OnEvent cb ?snap ?w4)"
    using w4(1) by (simp add: watch_callback_def next_pc_def)
  then have w5: "map w_pc (watchers ?w5) = map w_pc ws @ [W_Loop ?sid]"
    "calls ?w5 = calls w' @ [(OnEvent, cb, ?snap)]"
    "cc_states ?w5 = cc_states w' @ (case cb of UpdateState cc \<Rightarrow> [(cc, map Address ?snap)]
                                               | Observer k \<Rightarrow> [])"
    using w4 by (simp_all add: set_watcher_pc_def invoke_def Let_def split: callback.splits)
  have "fst (Discover (exec (Other_put ?k v) w') n) = Inr ?snap"
    using Discover_quiet [of "exec (Other_put ?k v) w'" n] live quiet by (simp add: exec_def)
  moreover have "run [Watcher_start ?i, Other_put ?k v, Watcher_receive ?i 1,
                      Watcher_discover ?i, Watcher_callback ?i] w' = ?w5"
    by (simp add: exec_def)
  ultimately show ?thesis using w5 by (intro exI [of _ ?snap]) (simp only: simp_thms)
qed

text \<open>
  Claim C2, amended. \<^verbatim>\<open>Close\<close> on the resolver that \<^verbatim>\<open>Build\<close> returned releases
  nothing: the goroutine that \<^verbatim>\<open>Build\<close> has started for the subscription is there
  after it as before, and it goes on to run and to deliver. If the context is live and
  the network quiet, then after \<^verbatim>\<open>Close\<close> the goroutine opens its stream, and when
  another client writes a key of the service it runs \<^verbatim>\<open>Discover\<close> and hands the
  addresses of the new snapshot to the \<^verbatim>\<open>ClientConn\<close>, and waits for the next event.
\<close>

theorem resolver_Close_releases_nothing:
  assumes "Build w endpoint cc = ((rsv, res), w1)" and "\<not> cancelled w1" and "net w1 = []"
  shows "\<exists>snap.
           watchers (etcdResolver_Close rsv w1) =
             watchers w @ [\<lparr>w_name = endpoint, w_callback = UpdateState cc, w_pc = W_Start\<rparr>] \<and>
           fst (Discover (exec (Other_put (service_key endpoint a) v) w1) endpoint) = Inr snap \<and>
           cc_states (run [Watcher_start (length (watchers w)),
                           Other_put (service_key endpoint a) v,
                           Watcher_receive (length (watchers w)) 1,
                           Watcher_discover (length (watchers w)),
                           Watcher_callback (length (watchers w))]
                        (etcdResolver_Close rsv w1))
             = cc_states w1 @ [(cc, map Address snap)] \<and>
           map w_pc (watchers (run [Watcher_start (length (watchers w)),
                                    Other_put (service_key endpoint a) v,
                                    Watcher_receive (length (watchers w)) 1,
                                    Watcher_discover (length (watchers w)),
                                    Watcher_callback (length (watchers w))]
                                 (etcdResolver_Close rsv w1)))
             = map w_pc (watchers w) @ [W_Loop (length (streams (store w1)))]"
proof -
  have "w1 = snd (Watch_initial (go_watch endpoint (UpdateState cc) w) endpoint (UpdateState cc))"
    using assms(1) by (simp add: Build_def Watch_def Let_def split: prod.splits)
  then have ws: "watchers w1 =
      watchers w @ [\<lparr>w_name = endpoint, w_callback = UpdateState cc, w_pc = W_Start\<rparr>]"
    by (simp add: Watch_initial_watchers go_watch_def)
  from watcher_delivers_later [OF assms(2,3) ws, of a v]
  obtain snap where
    "fst (Discover (exec (Other_put (service_key endpoint a) v) w1) endpoint) = Inr snap"
    "cc_states (run [Watcher_start (length (watchers w)),
                     Other_put (service_key endpoint a) v,
                     Watcher_receive (length (watchers w)) 1,
                     Watcher_discover (length (watchers w)),
                     Watcher_callback (length (watchers w))] w1)
       = cc_states w1 @ [(cc, map Address snap)]"
    "map w_pc (watchers (run [Watcher_start (length (watchers w)),
                              Other_put (service_key endpoint a) v,
                              Watcher_receive (length (watchers w)) 1,
                              Watcher_discover (length (watchers w)),
                              Watcher_callback (length (watchers w))] w1))
       = map w_pc (watchers w) @ [W_Loop (length (streams (store w1)))]"
    by auto
  with ws show ?thesis
    by (intro exI [of _ snap]) (simp only: etcdResolver_Close_def simp_thms)
qed

text \<open>
  \<^verbatim>\<open>Build\<close> on an empty table, \<^verbatim>\<open>Close\<close> on the resolver, and then the write of
  an instance: the \<^verbatim>\<open>ClientConn\<close> is given the address of the instance.
\<close>

theorem resolver_Close_releases_nothing_witness:
  \<open>fst (Build (fresh_world [] [] 10) ''auth'' 7) = (\<lparr>rsv_cc = 7\<rparr>, Inr ()) \<and>
   \<not> cancelled (snd (Build (fresh_world [] [] 10) ''auth'' 7)) \<and>
   net (snd (Build (fresh_world [] [] 10) ''auth'' 7)) = [] \<and>
   cc_states (snd (Build (fresh_world [] [] 10) ''auth'' 7)) = [(7, [])] \<and>
   cc_states (run [Watcher_start 0, Other_put (service_key ''auth'' ''h1:1'') ''{"address":"h1:1"}'',
                   Watcher_receive 0 1, Watcher_discover 0, Watcher_callback 0]
                (etcdResolver_Close \<lparr>rsv_cc = 7\<rparr>
                   (snd (Build (fresh_world [] [] 10) ''auth'' 7)))) =
     [(7, []), (7, [''h1:1''])]\<close>
proof -
  let ?w = "fresh_world [] [] 10"
  let ?w1 = "snd (Build ?w ''auth'' 7)"
  have built: "fst (Build ?w ''auth'' 7) = (\<lparr>rsv_cc = 7\<rparr>, Inr ())"
    by code_simp
  have after: "\<not> cancelled ?w1" "net ?w1 = []" "cc_states ?w1 = [(7, [])]" "watchers ?w = []"
    by code_simp+
  have snap: \<open>fst (Discover (exec (Other_put (service_key ''auth'' ''h1:1'')
                                     ''{"address":"h1:1"}'') ?w1) ''auth'') =
               Inr [\<lparr>Name = [], Address = ''h1:1'', Version = []\<rparr>]\<close>
    by code_simp
  from built have "Build ?w ''auth'' 7 = ((\<lparr>rsv_cc = 7\<rparr>, Inr ()), ?w1)"
    by (metis prod.collapse)
  from resolver_Close_releases_nothing [OF this after(1,2), of "''h1:1''" \<open>''{"address":"h1:1"}''\<close>]
    built after snap
  show ?thesis by auto
qed

text \<open>
  Nor does \<^verbatim>\<open>Close\<close> on the registry end the deliveries at once: a goroutine whose
  \<^verbatim>\<open>Discover\<close> (line 154) has returned before the context is cancelled goes on to its
  callback (line 156), where nothing looks at the context.
\<close>

lemma delivery_after_registry_Close:
  \<open>(let w1 = snd (Build (fresh_world [] [] 10) ''auth'' 7);
        w2 = run [Watcher_start 0,
                  Other_put ''/services/auth/h1:1'' ''{"address":"h1:1"}'',
                  Watcher_receive 0 1, Watcher_discover 0, Call_Close] w1;
        w3 = run [Watcher_callback 0] w2
    in cancelled w2 \<and> cc_states w2 = [(7, [])] \<and> cc_states w3 = [(7, []), (7, [''h1:1''])])\<close>
  by code_simp

section \<open>Properties of the codec\<close>

subsection \<open>Bytes and hexadecimal digits\<close>

lemma chr_byte [simp]: "chr (byte c) = c"
  by (simp add: chr_def byte_def)

lemma byte_lt_256 [simp]: "byte c < 256"
  by (simp add: byte_def)

lemma hexval_hex_upto: "list_all (\<lambda>n. hexval (hex n) = Some n) [0..<16]"
  by code_simp

lemma hexval_hex: "n < 16 \<Longrightarrow> hexval (hex n) = Some n"
  using hexval_hex_upto by (simp add: list_all_iff)

lemma getu4_hex:
  assumes "a < 16" "b < 16" "c < 16" "d < 16"
  shows "getu4 (hex a # hex b # hex c # hex d # rest) = Some (a * 4096 + b * 256 + c * 16 + d)"
  using assms by (simp add: hexval_hex)

lemma hex_0: "hex 0 = CHR ''0''" and hex_2: "hex 2 = CHR ''2''"
  by (simp_all add: hex_def)

text \<open>
  A well-formed rune beyond ASCII takes two, three or four bytes, and its value is made
  of their low bits.
\<close>

lemma DecodeRune_shape:
  assumes "DecodeRune (c # cs) = (r, n)" and "\<not> (r = RuneError \<and> n = 1)" and "0x80 \<le> byte c"
  obtains (two) c1 t where "cs = c1 # t" "n = 2" "0xC2 \<le> byte c" "byte c < 0xE0" "cont c1"
      "r = (byte c - 0xC0) * 64 + (byte c1 - 0x80)"
  | (three) c1 c2 t where "cs = c1 # c2 # t" "n = 3" "0xE0 \<le> byte c" "byte c < 0xF0"
      "second_ok (byte c) (byte c1)" "cont c2"
      "r = (byte c - 0xE0) * 4096 + (byte c1 - 0x80) * 64 + (byte c2 - 0x80)"
  | (four) c1 c2 c3 t where "cs = c1 # c2 # c3 # t" "n = 4" "0xF0 \<le> byte c" "byte c \<le> 0xF4"
      "second_ok (byte c) (byte c1)" "cont c2" "cont c3"
      "r = (byte c - 0xF0) * 262144 + (byte c1 - 0x80) * 4096 + (byte c2 - 0x80) * 64
             + (byte c3 - 0x80)"
  using assms
  by (auto simp: Let_def RuneError_def split: if_splits list.splits)

subsection \<open>\<^verbatim>\<open>EncodeRune\<close> undoes \<^verbatim>\<open>DecodeRune\<close>\<close>

lemma cont_range: "cont c \<Longrightarrow> 0x80 \<le> byte c \<and> byte c \<le> 0xBF"
  by (simp add: cont_def)

lemma second_ok_range: "second_ok b0 b1 \<Longrightarrow> 0x80 \<le> b1 \<and> b1 \<le> 0xBF"
  by (auto simp: second_ok_def split: if_splits)

lemma chr_eq: "byte c = n \<Longrightarrow> chr n = c"
  by auto

lemma EncodeRune_two:
  assumes "0xC2 \<le> byte c" "byte c < 0xE0" "cont c1"
  shows "EncodeRune ((byte c - 0xC0) * 64 + (byte c1 - 0x80)) = [c, c1]"
proof -
  define x y where "x = byte c - 0xC0" and "y = byte c1 - 0x80"
  have x: "byte c = 0xC0 + x" "2 \<le> x" "x < 32" and y: "byte c1 = 0x80 + y" "y < 64"
    using assms cont_range [OF assms(3)] by (auto simp: x_def y_def)
  have r: "128 \<le> x * 64 + y" "x * 64 + y < 2048" using x y by simp_all
  have "(x * 64 + y) div 64 = x" "(x * 64 + y) mod 64 = y" using y by simp_all
  then have "EncodeRune (x * 64 + y) = [chr (0xC0 + x), chr (0x80 + y)]"
    using r by (simp add: EncodeRune_def)
  then show ?thesis using x(1) y(1) by (simp add: x_def [symmetric] y_def [symmetric] chr_eq)
qed

lemma split2:
  fixes a z :: nat
  assumes "z < 64"
  shows "(a * 64 + z) div 64 = a" and "(a * 64 + z) mod 64 = z"
  using assms by simp_all

lemma split3:
  fixes x y z :: nat
  assumes "y < 64" "z < 64"
  shows "(x * 4096 + y * 64 + z) div 4096 = x"
    and "(x * 4096 + y * 64 + z) div 64 mod 64 = y"
    and "(x * 4096 + y * 64 + z) mod 64 = z"
proof -
  define a where "a = x * 64 + y"
  define r where "r = x * 4096 + y * 64 + z"
  have e: "r = a * 64 + z" by (simp add: a_def r_def)
  have d: "r div 64 = a" and m: "r mod 64 = z"
    unfolding e using split2 [OF assms(2)] by blast+
  have da: "a div 64 = x" and ma: "a mod 64 = y"
    unfolding a_def using split2 [OF assms(1)] by blast+
  have "r div 4096 = r div 64 div 64"
    by (simp add: div_mult2_eq [symmetric])
  then have "r div 4096 = x" by (simp add: d da)
  then show "(x * 4096 + y * 64 + z) div 4096 = x" by (simp add: r_def)
  show "(x * 4096 + y * 64 + z) div 64 mod 64 = y" using d ma by (simp add: r_def)
  show "(x * 4096 + y * 64 + z) mod 64 = z" using m by (simp add: r_def)
qed

lemma split4:
  fixes x y z u :: nat
  assumes "y < 64" "z < 64" "u < 64"
  shows "(x * 262144 + y * 4096 + z * 64 + u) div 262144 = x"
    and "(x * 262144 + y * 4096 + z * 64 + u) div 4096 mod 64 = y"
    and "(x * 262144 + y * 4096 + z * 64 + u) div 64 mod 64 = z"
    and "(x * 262144 + y * 4096 + z * 64 + u) mod 64 = u"
proof -
  define a where "a = x * 4096 + y * 64 + z"
  define r where "r = x * 262144 + y * 4096 + z * 64 + u"
  have e: "r = a * 64 + u" by (simp add: a_def r_def)
  have d: "r div 64 = a" and m: "r mod 64 = u"
    unfolding e using split2 [OF assms(3)] by blast+
  have a3: "a div 4096 = x" "a div 64 mod 64 = y" "a mod 64 = z"
    unfolding a_def using split3 [OF assms(1,2)] by blast+
  have "r div 4096 = r div 64 div 64"
    by (simp add: div_mult2_eq [symmetric])
  then have d2: "r div 4096 = a div 64" by (simp add: d)
  have "r div 262144 = r div 64 div 4096"
    by (simp add: div_mult2_eq [symmetric])
  then have d3: "r div 262144 = x" by (simp add: d a3)
  show "(x * 262144 + y * 4096 + z * 64 + u) div 262144 = x" using d3 by (simp add: r_def)
  show "(x * 262144 + y * 4096 + z * 64 + u) div 4096 mod 64 = y"
    using d2 a3(2) by (simp add: r_def)
  show "(x * 262144 + y * 4096 + z * 64 + u) div 64 mod 64 = z" using d a3(3) by (simp add: r_def)
  show "(x * 262144 + y * 4096 + z * 64 + u) mod 64 = u" using m by (simp add: r_def)
qed

lemma EncodeRune_3:
  assumes "0x800 \<le> r" "r < 0x10000" "r < 0xD800 \<or> 0xDFFF < r"
  shows "EncodeRune r = [chr (0xE0 + r div 4096), chr (0x80 + r div 64 mod 64), chr (0x80 + r mod 64)]"
  using assms by (auto simp: EncodeRune_def)

lemma EncodeRune_4:
  assumes "0x10000 \<le> r" "r \<le> 0x10FFFF"
  shows "EncodeRune r = [chr (0xF0 + r div 262144), chr (0x80 + r div 4096 mod 64),
                         chr (0x80 + r div 64 mod 64), chr (0x80 + r mod 64)]"
  using assms by (auto simp: EncodeRune_def)

lemma EncodeRune_three:
  assumes "0xE0 \<le> byte c" "byte c < 0xF0" "second_ok (byte c) (byte c1)" "cont c2"
  shows "EncodeRune ((byte c - 0xE0) * 4096 + (byte c1 - 0x80) * 64 + (byte c2 - 0x80)) = [c, c1, c2]"
proof -
  define x y z where "x = byte c - 0xE0" and "y = byte c1 - 0x80" and "z = byte c2 - 0x80"
  have x: "byte c = 0xE0 + x" "x < 16" and y: "byte c1 = 0x80 + y" "y < 64"
    and z: "byte c2 = 0x80 + z" "z < 64"
    using assms(1,2) cont_range [OF assms(4)] second_ok_range [OF assms(3)]
    by (auto simp: x_def y_def z_def)
  have lo: "x = 0 \<Longrightarrow> 32 \<le> y" and sur: "x = 13 \<Longrightarrow> y < 32"
    using assms(3) by (simp_all add: second_ok_def x(1) y(1))
  let ?r = "x * 4096 + y * 64 + z"
  have r1: "2048 \<le> ?r"
  proof (cases "x = 0")
    case True
    with lo show ?thesis by simp
  next
    case False
    then have "4096 \<le> x * 4096" by simp
    then show ?thesis by simp
  qed
  have r2: "?r < 65536" using x(2) y(2) z(2) by simp
  have r3: "?r < 0xD800 \<or> 0xDFFF < ?r"
  proof -
    consider "x < 13" | "x = 13" | "13 < x" by arith
    then show ?thesis
    proof cases
      case 1
      then have "x * 4096 \<le> 12 * 4096" by simp
      then show ?thesis using y(2) z(2) by simp
    next
      case 2
      with sur have "y < 32" by simp
      with 2 z(2) show ?thesis by simp
    next
      case 3
      then have "14 * 4096 \<le> x * 4096" by simp
      then show ?thesis by simp
    qed
  qed
  have "EncodeRune ?r = [chr (0xE0 + x), chr (0x80 + y), chr (0x80 + z)]"
    using EncodeRune_3 [of ?r] r1 r2 r3 split3 [OF y(2) z(2), of x] by simp
  then show ?thesis using x(1) y(1) z(1)
    by (simp add: x_def [symmetric] y_def [symmetric] z_def [symmetric] chr_eq)
qed

lemma EncodeRune_four:
  assumes "0xF0 \<le> byte c" "byte c \<le> 0xF4" "second_ok (byte c) (byte c1)" "cont c2" "cont c3"
  shows "EncodeRune ((byte c - 0xF0) * 262144 + (byte c1 - 0x80) * 4096 + (byte c2 - 0x80) * 64
                       + (byte c3 - 0x80)) = [c, c1, c2, c3]"
proof -
  define x y z u where "x = byte c - 0xF0" and "y = byte c1 - 0x80" and "z = byte c2 - 0x80"
    and "u = byte c3 - 0x80"
  have x: "byte c = 0xF0 + x" "x \<le> 4" and y: "byte c1 = 0x80 + y" "y < 64"
    and z: "byte c2 = 0x80 + z" "z < 64" and u: "byte c3 = 0x80 + u" "u < 64"
    using assms(1,2) cont_range [OF assms(4)] cont_range [OF assms(5)]
      second_ok_range [OF assms(3)]
    by (auto simp: x_def y_def z_def u_def)
  have lo: "x = 0 \<Longrightarrow> 16 \<le> y" and hi: "x = 4 \<Longrightarrow> y < 16"
    using assms(3) by (simp_all add: second_ok_def x(1) y(1))
  let ?r = "x * 262144 + y * 4096 + z * 64 + u"
  have r1: "65536 \<le> ?r"
  proof (cases "x = 0")
    case True
    with lo have "16 * 4096 \<le> y * 4096" by simp
    then show ?thesis by simp
  next
    case False
    then have "262144 \<le> x * 262144" by simp
    then show ?thesis by simp
  qed
  have r2: "?r \<le> 1114111"
  proof (cases "x = 4")
    case True
    with hi have "y * 4096 \<le> 15 * 4096" by simp
    with True z(2) u(2) show ?thesis by simp
  next
    case False
    with x(2) have "x * 262144 \<le> 3 * 262144" by simp
    with y(2) z(2) u(2) show ?thesis by simp
  qed
  have "EncodeRune ?r = [chr (0xF0 + x), chr (0x80 + y), chr (0x80 + z), chr (0x80 + u)]"
    using EncodeRune_4 [of ?r] r1 r2 split4 [OF y(2) z(2) u(2), of x] by simp
  then show ?thesis using x(1) y(1) z(1) u(1)
    by (simp add: x_def [symmetric] y_def [symmetric] z_def [symmetric] u_def [symmetric] chr_eq)
qed

subsection \<open>Unquoting what the encoder escaped\<close>

lemma prepend_Some: "prepend p (Some (s, rest)) = Some (p @ s, rest)"
  by (simp add: prepend_def)

lemma EncodeRune_ascii: "byte c < 0x80 \<Longrightarrow> EncodeRune (byte c) = [c]"
  by (simp add: EncodeRune_def)

lemma unquote_backslash:
  "unquote (CHR 0x5C # e # es) =
     (if e = CHR ''u'' then
               (case getu4 es of
                  None \<Rightarrow> None
                | Some rr \<Rightarrow>
                    if IsSurrogate rr then
                      (case getu4_escaped (drop 4 es) of
                         None \<Rightarrow> prepend (EncodeRune RuneError) (unquote (drop 4 es))
                       | Some rr1 \<Rightarrow>
                           if utf16_DecodeRune rr rr1 \<noteq> RuneError
                           then prepend (EncodeRune (utf16_DecodeRune rr rr1)) (unquote (drop 10 es))
                           else prepend (EncodeRune RuneError) (unquote (drop 4 es)))
                    else prepend (EncodeRune rr) (unquote (drop 4 es)))
             else
               (case unescape_letter e of
                  None \<Rightarrow> None
                | Some ch \<Rightarrow> prepend [ch] (unquote es)))"
  by (simp add: byte_def)

text \<open>The six-character escape of a byte below \<open>0x80\<close> stands for that byte.\<close>

lemma unquote_u00:
  assumes "byte c < 0x80"
  shows "unquote (CHR 0x5C # CHR ''u'' # CHR ''0'' # CHR ''0'' # hex (byte c div 16)
                    # hex (byte c mod 16) # rest) = prepend [c] (unquote rest)"
proof -
  have "getu4 (hex 0 # hex 0 # hex (byte c div 16) # hex (byte c mod 16) # rest) =
          Some (0 * 4096 + 0 * 256 + (byte c div 16) * 16 + byte c mod 16)"
    using assms by (intro getu4_hex) simp_all
  then have g: "getu4 (CHR ''0'' # CHR ''0'' # hex (byte c div 16) # hex (byte c mod 16) # rest) =
          Some (byte c)"
    by (simp add: hex_0)
  have s: "\<not> IsSurrogate (byte c)" using assms by (simp add: IsSurrogate_def)
  show ?thesis
    unfolding unquote_backslash using g s assms by (simp add: EncodeRune_ascii)
qed

lemma unquote_plain:
  assumes "c \<noteq> CHR 0x22" "c \<noteq> CHR 0x5C" "0x20 \<le> byte c" "byte c < 0x80"
  shows "unquote (c # rest) = prepend [c] (unquote rest)"
  using assms by simp

lemma unquote_letter:
  assumes "unescape_letter e = Some ch" "e \<noteq> CHR ''u''"
  shows "unquote (CHR 0x5C # e # rest) = prepend [ch] (unquote rest)"
  unfolding unquote_backslash using assms by simp

lemma letters:
  "unescape_letter (CHR 0x5C) = Some (CHR 0x5C)"
  "unescape_letter (CHR 0x22) = Some (CHR 0x22)"
  "unescape_letter (CHR ''b'') = Some (CHR 0x08)"
  "unescape_letter (CHR ''f'') = Some (CHR 0x0C)"
  "unescape_letter (CHR ''n'') = Some (CHR 0x0A)"
  "unescape_letter (CHR ''r'') = Some (CHR 0x0D)"
  "unescape_letter (CHR ''t'') = Some (CHR 0x09)"
  by (simp_all add: unescape_letter_def)

lemma escape_ascii_special:
  "escape_ascii (CHR 0x5C) = [CHR 0x5C, CHR 0x5C]"
  "escape_ascii (CHR 0x22) = [CHR 0x5C, CHR 0x22]"
  "escape_ascii (CHR 0x08) = [CHR 0x5C, CHR ''b'']"
  "escape_ascii (CHR 0x0C) = [CHR 0x5C, CHR ''f'']"
  "escape_ascii (CHR 0x0A) = [CHR 0x5C, CHR ''n'']"
  "escape_ascii (CHR 0x0D) = [CHR 0x5C, CHR ''r'']"
  "escape_ascii (CHR 0x09) = [CHR 0x5C, CHR ''t'']"
  by (simp_all add: escape_ascii_def)

lemma unquote_escape_special:
  assumes "c = CHR 0x5C \<or> c = CHR 0x22 \<or> c = CHR 0x08 \<or> c = CHR 0x0C \<or> c = CHR 0x0A
             \<or> c = CHR 0x0D \<or> c = CHR 0x09"
  shows "unquote (escape_ascii c @ rest) = prepend [c] (unquote rest)"
  using assms
  by (elim disjE) (simp_all only: escape_ascii_special append_Cons append_Nil
        unquote_letter [OF letters(1)] unquote_letter [OF letters(2)]
        unquote_letter [OF letters(3)] unquote_letter [OF letters(4)]
        unquote_letter [OF letters(5)] unquote_letter [OF letters(6)]
        unquote_letter [OF letters(7)] char.inject simp_thms)

lemma byte_special:
  "byte (CHR 0x22) = 34" "byte (CHR 0x5C) = 92"
  by (simp_all add: byte_def)

lemma unquote_escape_ascii:
  assumes "byte c < 0x80"
  shows "unquote (escape_ascii c @ rest) = prepend [c] (unquote rest)"
proof (cases "c = CHR 0x5C \<or> c = CHR 0x22 \<or> c = CHR 0x08 \<or> c = CHR 0x0C \<or> c = CHR 0x0A
                \<or> c = CHR 0x0D \<or> c = CHR 0x09")
  case True
  then show ?thesis by (rule unquote_escape_special)
next
  case special: False
  show ?thesis
  proof (cases "byte c < 0x20 \<or> c = CHR ''<'' \<or> c = CHR ''>'' \<or> c = CHR ''&''")
    case True
    with special have "escape_ascii c = [CHR 0x5C, CHR ''u'', CHR ''0'', CHR ''0'',
                                  hex (byte c div 16), hex (byte c mod 16)]"
      by (simp add: escape_ascii_def)
    then show ?thesis using unquote_u00 [OF assms] by (simp del: unquote.simps)
  next
    case False
    with special have e: "escape_ascii c = [c]"
      by (simp add: escape_ascii_def)
    have "unquote (c # rest) = prepend [c] (unquote rest)"
    proof (rule unquote_plain)
      show "c \<noteq> CHR 0x22" "c \<noteq> CHR 0x5C" using special by simp_all
      show "0x20 \<le> byte c" using False by simp
      show "byte c < 0x80" by (rule assms)
    qed
    then show ?thesis by (simp only: e append_Cons append_Nil)
  qed
qed

lemma escape_high:
  assumes "\<not> byte c < 0x80" and "DecodeRune (c # cs) = (r, n)"
  shows "escape (c # cs) =
     (if r = RuneError \<and> n = 1
        then [CHR 0x5C, CHR ''u'', CHR ''f'', CHR ''f'', CHR ''f'', CHR ''d''] @ escape cs
      else if r = 0x2028 \<or> r = 0x2029
        then [CHR 0x5C, CHR ''u'', CHR ''2'', CHR ''0'', CHR ''2'', hex (r mod 16)]
               @ escape (drop (n - 1) cs)
      else c # take (n - 1) cs @ escape (drop (n - 1) cs))"
  using assms by (simp del: DecodeRune.simps)

lemma ValidString_Cons:
  assumes "DecodeRune (c # cs) = (r, n)"
  shows "ValidString (c # cs) = (\<not> (r = RuneError \<and> n = 1) \<and> ValidString (drop (n - 1) cs))"
  using assms by (simp del: DecodeRune.simps)

lemma DecodeRune_ascii: "byte c < 0x80 \<Longrightarrow> DecodeRune (c # cs) = (byte c, 1)"
  by (simp add: Let_def)

lemma unquote_high:
  assumes "0x80 \<le> byte c"
  shows "unquote (c # X) =
     (case DecodeRune (c # X) of (r, n) \<Rightarrow> prepend (EncodeRune r) (unquote (drop (n - 1) X)))"
proof -
  have "c \<noteq> CHR 0x22" "c \<noteq> CHR 0x5C" using assms byte_special by auto
  moreover have "\<not> byte c < 0x20" "\<not> byte c < 0x80" using assms by simp_all
  ultimately show ?thesis by (simp del: DecodeRune.simps)
qed

lemma DecodeRune_two:
  assumes "0xC2 \<le> byte c" "byte c < 0xE0" "cont c1"
  shows "DecodeRune (c # c1 # Y) = ((byte c - 0xC0) * 64 + (byte c1 - 0x80), 2)"
  using assms by (simp add: Let_def)

lemma DecodeRune_three:
  assumes "0xE0 \<le> byte c" "byte c < 0xF0" "second_ok (byte c) (byte c1)" "cont c2"
  shows "DecodeRune (c # c1 # c2 # Y) =
           ((byte c - 0xE0) * 4096 + (byte c1 - 0x80) * 64 + (byte c2 - 0x80), 3)"
  using assms by (simp add: Let_def)

lemma DecodeRune_four:
  assumes "0xF0 \<le> byte c" "byte c \<le> 0xF4" "second_ok (byte c) (byte c1)" "cont c2" "cont c3"
  shows "DecodeRune (c # c1 # c2 # c3 # Y) =
           ((byte c - 0xF0) * 262144 + (byte c1 - 0x80) * 4096 + (byte c2 - 0x80) * 64
              + (byte c3 - 0x80), 4)"
  using assms by (simp add: Let_def)

lemma unquote_two:
  assumes "0xC2 \<le> byte c" "byte c < 0xE0" "cont c1"
  shows "unquote (c # c1 # Y) = prepend [c, c1] (unquote Y)"
proof -
  have "0x80 \<le> byte c" using assms(1) by simp
  from unquote_high [OF this, of "c1 # Y"] show ?thesis
    by (simp only: DecodeRune_two [OF assms] EncodeRune_two [OF assms] prod.case) simp
qed

lemma unquote_three:
  assumes "0xE0 \<le> byte c" "byte c < 0xF0" "second_ok (byte c) (byte c1)" "cont c2"
  shows "unquote (c # c1 # c2 # Y) = prepend [c, c1, c2] (unquote Y)"
proof -
  have "0x80 \<le> byte c" using assms(1) by simp
  from unquote_high [OF this, of "c1 # c2 # Y"] show ?thesis
    by (simp only: DecodeRune_three [OF assms] EncodeRune_three [OF assms] prod.case) simp
qed

lemma unquote_four:
  assumes "0xF0 \<le> byte c" "byte c \<le> 0xF4" "second_ok (byte c) (byte c1)" "cont c2" "cont c3"
  shows "unquote (c # c1 # c2 # c3 # Y) = prepend [c, c1, c2, c3] (unquote Y)"
proof -
  have "0x80 \<le> byte c" using assms(1) by simp
  from unquote_high [OF this, of "c1 # c2 # c3 # Y"] show ?thesis
    by (simp only: DecodeRune_four [OF assms] EncodeRune_four [OF assms] prod.case) simp
qed

text \<open>The escapes of U+2028 and U+2029 stand for the runes themselves.\<close>

lemma unquote_u202:
  assumes "r = 0x2028 \<or> r = 0x2029"
  shows "unquote (CHR 0x5C # CHR ''u'' # CHR ''2'' # CHR ''0'' # CHR ''2'' # hex (r mod 16) # Y) =
           prepend (EncodeRune r) (unquote Y)"
proof -
  have m: "r mod 16 < 16" by simp
  have "getu4 (hex 2 # hex 0 # hex 2 # hex (r mod 16) # Y) =
          Some (2 * 4096 + 0 * 256 + 2 * 16 + r mod 16)"
    by (intro getu4_hex) simp_all
  moreover have "2 * 4096 + 0 * 256 + 2 * 16 + r mod 16 = r" using assms by auto
  ultimately have g: "getu4 (CHR ''2'' # CHR ''0'' # CHR ''2'' # hex (r mod 16) # Y) = Some r"
    by (simp add: hex_0 hex_2)
  have s: "\<not> IsSurrogate r" using assms by (auto simp: IsSurrogate_def)
  show ?thesis unfolding unquote_backslash using g s by simp
qed

text \<open>
  The string literal that the encoder writes for a well-formed UTF-8 string is read back
  as that string, whatever follows the closing quote.
\<close>

lemma unquote_escape:
  "ValidString s \<Longrightarrow> unquote (escape s @ CHR 0x22 # rest) = Some (s, rest)"
proof (induction s rule: length_induct)
  case (1 s)
  show ?case
  proof (cases s)
    case Nil
    then show ?thesis by simp
  next
    case (Cons c cs)
    show ?thesis
    proof (cases "byte c < 0x80")
      case True
      have "ValidString cs"
        using "1.prems" Cons ValidString_Cons [OF DecodeRune_ascii [OF True], of cs] by simp
      then have "unquote (escape cs @ CHR 0x22 # rest) = Some (cs, rest)"
        using "1.IH" Cons by simp
      moreover have "escape s = escape_ascii c @ escape cs"
        using Cons True by simp
      ultimately show ?thesis
        using unquote_escape_ascii [OF True, of "escape cs @ CHR 0x22 # rest"] Cons
        by (simp add: prepend_Some del: unquote.simps)
    next
      case False
      obtain r n where d: "DecodeRune (c # cs) = (r, n)" by fastforce
      have ok: "\<not> (r = RuneError \<and> n = 1)" and tl: "ValidString (drop (n - 1) cs)"
        using "1.prems" Cons ValidString_Cons [OF d] by simp_all
      have esc: "escape s =
        (if r = 0x2028 \<or> r = 0x2029
           then [CHR 0x5C, CHR ''u'', CHR ''2'', CHR ''0'', CHR ''2'', hex (r mod 16)]
                  @ escape (drop (n - 1) cs)
         else c # take (n - 1) cs @ escape (drop (n - 1) cs))"
        unfolding Cons using escape_high [OF False d] by (simp only: ok if_False)
      have high: "0x80 \<le> byte c" using False by simp
      from d ok high show ?thesis
      proof (cases rule: DecodeRune_shape)
        case (two c1 t)
        have ih: "unquote (escape t @ CHR 0x22 # rest) = Some (t, rest)"
          using "1.IH" tl two(1,2) Cons by simp
        have enc: "EncodeRune r = [c, c1]"
          unfolding two(6) by (rule EncodeRune_two [OF two(3,4,5)])
        have "byte c - 0xC0 \<le> 31" using two(4) by auto
        then have "(byte c - 0xC0) * 64 \<le> 31 * 64" by (rule mult_le_mono1)
        moreover have "byte c1 - 0x80 \<le> 63" using cont_range [OF two(5)] by auto
        ultimately have "r < 2048" unfolding two(6) by simp
        then have "escape s = c # c1 # escape t" using esc two(1,2) by simp
        then show ?thesis
          using unquote_two [OF two(3,4,5), of "escape t @ CHR 0x22 # rest"] ih Cons two(1)
          by (simp add: prepend_Some del: unquote.simps)
      next
        case (three c1 c2 t)
        have ih: "unquote (escape t @ CHR 0x22 # rest) = Some (t, rest)"
          using "1.IH" tl three(1,2) Cons by simp
        have enc: "EncodeRune r = [c, c1, c2]"
          unfolding three(7) by (rule EncodeRune_three [OF three(3,4,5,6)])
        show ?thesis
        proof (cases "r = 0x2028 \<or> r = 0x2029")
          case True
          then have "escape s = [CHR 0x5C, CHR ''u'', CHR ''2'', CHR ''0'', CHR ''2'', hex (r mod 16)]
                  @ escape t"
            using esc three(1,2) by simp
          then show ?thesis
            using unquote_u202 [OF True, of "escape t @ CHR 0x22 # rest"] ih enc Cons three(1)
            by (simp add: prepend_Some del: unquote.simps)
        next
          case False
          then have "escape s = c # c1 # c2 # escape t" using esc three(1,2) by simp
          then show ?thesis
            using unquote_three [OF three(3,4,5,6), of "escape t @ CHR 0x22 # rest"] ih Cons three(1)
            by (simp add: prepend_Some del: unquote.simps)
        qed
      next
        case (four c1 c2 c3 t)
        have ih: "unquote (escape t @ CHR 0x22 # rest) = Some (t, rest)"
          using "1.IH" tl four(1,2) Cons by simp
        have "262144 \<le> (byte c - 0xF0) * 262144 \<or> 65536 \<le> (byte c1 - 0x80) * 4096"
        proof (cases "byte c = 0xF0")
          case True
          then have "0x90 \<le> byte c1" using four(5) by (simp add: second_ok_def)
          then have "16 * 4096 \<le> (byte c1 - 0x80) * 4096" by simp
          then show ?thesis by simp
        next
          case False
          with four(3) have "1 \<le> byte c - 0xF0" by simp
          then have "1 * 262144 \<le> (byte c - 0xF0) * 262144" by (rule mult_le_mono1)
          then show ?thesis by simp
        qed
        then have "65536 \<le> r" unfolding four(8) by auto
        then have "escape s = c # c1 # c2 # c3 # escape t" using esc four(1,2) by simp
        then show ?thesis
          using unquote_four [OF four(3,4,5,6,7), of "escape t @ CHR 0x22 # rest"] ih Cons four(1)
          by (simp add: prepend_Some del: unquote.simps)
      qed
    qed
  qed
qed

subsection \<open>Reading the object that \<^verbatim>\<open>json.Marshal\<close> writes\<close>

lemma skip_space_Cons: "\<not> isSpace c \<Longrightarrow> skip_space (c # cs) = c # cs"
  by (simp add: skip_space_def)

lemma not_space:
  "\<not> isSpace (CHR 0x22)" "\<not> isSpace (CHR '':'')" "\<not> isSpace (CHR '','')"
  "\<not> isSpace (CHR ''}'')" "\<not> isSpace (CHR ''{'')"
  by (simp_all add: isSpace_def)

lemma parse_value_string:
  assumes "ValidString s"
  shows "parse_value (Suc f) d (CHR 0x22 # escape s @ CHR 0x22 # rest) = Some (JString s, rest)"
  by (simp add: skip_space_Cons not_space unquote_escape [OF assms] del: unquote.simps)

lemma parse_members_more:
  assumes "ValidString k" "ValidString s"
  shows "parse_members (Suc (Suc f)) d
           (CHR 0x22 # escape k @ CHR 0x22 # CHR '':'' # CHR 0x22 # escape s @ CHR 0x22
              # CHR '','' # rest) =
         (case parse_members (Suc f) d rest of
            None \<Rightarrow> None
          | Some (ms, r4) \<Rightarrow> Some ((k, JString s) # ms, r4))"
  apply (subst parse_members.simps(2))
  apply (simp add: skip_space_Cons not_space unquote_escape [OF assms(1)]
           parse_value_string [OF assms(2)]
         del: unquote.simps parse_members.simps parse_value.simps)
  done

lemma parse_members_last:
  assumes "ValidString k" "ValidString s"
  shows "parse_members (Suc (Suc f)) d
           (CHR 0x22 # escape k @ CHR 0x22 # CHR '':'' # CHR 0x22 # escape s @ CHR 0x22
              # CHR ''}'' # rest) = Some ([(k, JString s)], rest)"
  apply (subst parse_members.simps(2))
  apply (simp add: skip_space_Cons not_space unquote_escape [OF assms(1)]
           parse_value_string [OF assms(2)]
         del: unquote.simps parse_members.simps parse_value.simps)
  done

lemma keys_valid: "ValidString ''name''" "ValidString ''address''" "ValidString ''version''"
  by (simp_all add: byte_def Let_def RuneError_def)

lemma Marshal_form:
  "json_Marshal si =
     Inr (CHR ''{'' # CHR 0x22 # escape ''name'' @ CHR 0x22 # CHR '':'' # CHR 0x22
            # escape (Name si) @ CHR 0x22 # CHR '',''
            # CHR 0x22 # escape ''address'' @ CHR 0x22 # CHR '':'' # CHR 0x22
            # escape (Address si) @ CHR 0x22 # CHR '',''
            # CHR 0x22 # escape ''version'' @ CHR 0x22 # CHR '':'' # CHR 0x22
            # escape (Version si) @ CHR 0x22 # CHR ''}'' # [])"
  by (simp add: json_Marshal_def appendString_def del: escape.simps)

lemma parse_object:
  assumes "ValidString n" "ValidString a" "ValidString v"
  shows "parse_value (Suc (Suc (Suc (Suc (Suc f))))) (Suc d)
          (CHR ''{'' # CHR 0x22 # escape ''name'' @ CHR 0x22 # CHR '':'' # CHR 0x22
            # escape n @ CHR 0x22 # CHR '',''
            # CHR 0x22 # escape ''address'' @ CHR 0x22 # CHR '':'' # CHR 0x22
            # escape a @ CHR 0x22 # CHR '',''
            # CHR 0x22 # escape ''version'' @ CHR 0x22 # CHR '':'' # CHR 0x22
            # escape v @ CHR 0x22 # CHR ''}'' # rest) =
         Some (JObject [(''name'', JString n), (''address'', JString a), (''version'', JString v)],
               rest)"
  apply (subst parse_value.simps(2))
  apply (simp add: skip_space_Cons not_space
           parse_members_more [OF keys_valid(1) assms(1)]
           parse_members_more [OF keys_valid(2) assms(2)]
           parse_members_last [OF keys_valid(3) assms(3)]
         del: unquote.simps parse_members.simps parse_value.simps escape.simps)
  done

lemma store_three_members:
  "foldl store_member (zero_ServiceInfo, False)
     [(''name'', JString n), (''address'', JString a), (''version'', JString v)] =
   (\<lparr>Name = n, Address = a, Version = v\<rparr>, False)"
  by (simp add: store_member_def field_of_def set_field_def zero_ServiceInfo_def)

lemma Unmarshal_object:
  assumes "parse payload =
          Some (JObject [(''name'', JString n), (''address'', JString a),
                         (''version'', JString v)])"
  shows "json_Unmarshal payload = Inr \<lparr>Name = n, Address = a, Version = v\<rparr>"
  unfolding json_Unmarshal_def assms
  by (simp only: store_three_members option.case json.case prod.case if_False)

lemma parse_top:
  assumes "parse_value (Suc (Suc (Suc (Suc (Suc k))))) (Suc 9999) payload = Some (v, [])"
    and "2 * length payload + 2 = Suc (Suc (Suc (Suc (Suc k))))"
  shows "parse payload = Some v"
  unfolding parse_def assms(2) maxNestingDepth_def
  using assms(1) by (simp add: skip_space_def del: parse_value.simps)

text \<open>
  Claim C6. For a name, an address and a version that are well-formed UTF-8 strings,
  \<^verbatim>\<open>json.Marshal\<close> of the record succeeds, and \<^verbatim>\<open>json.Unmarshal\<close> of the payload it
  returns gives a record with the same name, address and version.
\<close>

theorem Marshal_Unmarshal_roundtrip:
  assumes "ValidString name" and "ValidString address" and "ValidString version"
  shows "\<exists>payload.
           json_Marshal \<lparr>Name = name, Address = address, Version = version\<rparr> = Inr payload \<and>
           json_Unmarshal payload = Inr \<lparr>Name = name, Address = address, Version = version\<rparr>"
proof -
  define payload where "payload =
          CHR ''{'' # CHR 0x22 # escape ''name'' @ CHR 0x22 # CHR '':'' # CHR 0x22
            # escape name @ CHR 0x22 # CHR '',''
            # CHR 0x22 # escape ''address'' @ CHR 0x22 # CHR '':'' # CHR 0x22
            # escape address @ CHR 0x22 # CHR '',''
            # CHR 0x22 # escape ''version'' @ CHR 0x22 # CHR '':'' # CHR 0x22
            # escape version @ CHR 0x22 # CHR ''}'' # []"
  have m: "json_Marshal \<lparr>Name = name, Address = address, Version = version\<rparr> = Inr payload"
    by (simp only: Marshal_form payload_def ServiceInfo.select_convs)
  have "5 \<le> 2 * length payload + 2"
    by (simp only: payload_def list.size) simp
  then obtain k where "2 * length payload + 2 = 5 + k"
    using le_Suc_ex by blast
  then have fuel: "2 * length payload + 2 = Suc (Suc (Suc (Suc (Suc k))))" by simp
  have "parse_value (Suc (Suc (Suc (Suc (Suc k))))) (Suc 9999) payload =
          Some (JObject [(''name'', JString name), (''address'', JString address),
                         (''version'', JString version)], [])"
    unfolding payload_def by (rule parse_object [OF assms])
  then have "parse payload =
          Some (JObject [(''name'', JString name), (''address'', JString address),
                         (''version'', JString version)])"
    using fuel by (rule parse_top)
  then have "json_Unmarshal payload = Inr \<lparr>Name = name, Address = address, Version = version\<rparr>"
    by (rule Unmarshal_object)
  with m show ?thesis by (intro exI [of _ payload] conjI)
qed

text \<open>
  Well-formed UTF-8 is needed: the encoder writes a byte that belongs to no well-formed
  rune as the escape of U+FFFD, and the decoder reads three other bytes back.
\<close>

lemma escape_invalid_byte:
  "escape [CHR 0xFF] = [CHR 0x5C, CHR ''u'', CHR ''f'', CHR ''f'', CHR ''f'', CHR ''d'']"
  by (simp add: byte_def Let_def RuneError_def)

lemma chr_replacement:
  "chr 239 = CHR 0xEF" "chr 191 = CHR 0xBF" "chr 189 = CHR 0xBD"
proof -
  have "byte (CHR 0xEF) = 239" "byte (CHR 0xBF) = 191" "byte (CHR 0xBD) = 189"
    by (simp_all add: byte_def)
  then show "chr 239 = CHR 0xEF" "chr 191 = CHR 0xBF" "chr 189 = CHR 0xBD"
    using chr_byte [of "CHR 0xEF"] chr_byte [of "CHR 0xBF"] chr_byte [of "CHR 0xBD"]
    by simp_all
qed

lemma unquote_invalid_byte:
  "unquote (escape [CHR 0xFF] @ [CHR 0x22]) = Some ([CHR 0xEF, CHR 0xBF, CHR 0xBD], [])"
proof -
  have "unquote [CHR 0x22] = Some ([], [])" by simp
  then show ?thesis
    unfolding escape_invalid_byte
    by (simp add: unquote_backslash hexval_def byte_def IsSurrogate_def EncodeRune_def chr_replacement
          prepend_def del: unquote.simps(2))
qed

text \<open>
  A record whose version has a quote, a backslash, control characters, the characters
  that the encoder escapes for HTML, and runes of two, three (U+2028) and four bytes.
\<close>

lemma valid_auth: "ValidString ''auth''"
  by (simp add: byte_def Let_def RuneError_def)

lemma valid_address: "ValidString ''10.0.0.1:9000''"
  by (simp add: byte_def Let_def RuneError_def)

lemma valid_version:
  \<open>ValidString (''v<1> "a'' @ [CHR 0x5C, CHR 0x0A, CHR 0x01, CHR 0xC3, CHR 0xA9,
                     CHR 0xE2, CHR 0x80, CHR 0xA8, CHR 0xF0, CHR 0x9F, CHR 0x98, CHR 0x80])\<close>
  by (simp add: byte_def Let_def RuneError_def cont_def second_ok_def)

theorem Marshal_Unmarshal_roundtrip_witness:
  \<open>ValidString ''auth'' \<and> ValidString ''10.0.0.1:9000'' \<and>
   ValidString (''v<1> "a'' @ [CHR 0x5C, CHR 0x0A, CHR 0x01, CHR 0xC3, CHR 0xA9,
                     CHR 0xE2, CHR 0x80, CHR 0xA8, CHR 0xF0, CHR 0x9F, CHR 0x98, CHR 0x80]) \<and>
   json_Unmarshal
     (projr (json_Marshal
        \<lparr>Name = ''auth'', Address = ''10.0.0.1:9000'',
           Version = ''v<1> "a'' @ [CHR 0x5C, CHR 0x0A, CHR 0x01, CHR 0xC3, CHR 0xA9,
                     CHR 0xE2, CHR 0x80, CHR 0xA8, CHR 0xF0, CHR 0x9F, CHR 0x98, CHR 0x80]\<rparr>)) =
     Inr \<lparr>Name = ''auth'', Address = ''10.0.0.1:9000'',
           Version = ''v<1> "a'' @ [CHR 0x5C, CHR 0x0A, CHR 0x01, CHR 0xC3, CHR 0xA9,
                     CHR 0xE2, CHR 0x80, CHR 0xA8, CHR 0xF0, CHR 0x9F, CHR 0x98, CHR 0x80]\<rparr>\<close>
proof -
  let ?v = \<open>''v<1> "a'' @ [CHR 0x5C, CHR 0x0A, CHR 0x01, CHR 0xC3, CHR 0xA9,
                     CHR 0xE2, CHR 0x80, CHR 0xA8, CHR 0xF0, CHR 0x9F, CHR 0x98, CHR 0x80]\<close>
  let ?si = "\<lparr>Name = ''auth'', Address = ''10.0.0.1:9000'', Version = ?v\<rparr>"
  from Marshal_Unmarshal_roundtrip [OF valid_auth valid_address valid_version]
  obtain payload where p: "json_Marshal ?si = Inr payload" and u: "json_Unmarshal payload = Inr ?si"
    by blast
  have "projr (json_Marshal ?si) = payload" by (simp only: p sum.sel)
  then have "json_Unmarshal (projr (json_Marshal ?si)) = Inr ?si" using u by (simp only:)
  with valid_auth valid_address valid_version show ?thesis by (intro conjI)
qed

end
